theory Spec2Isabelle
  imports
    Main
    "HOL-Library.AList"
    "HOL-Library.Char_ord"
    "HOL-Library.DAList"
    "HOL-Library.List_Lexorder"
    "HOL-Library.Product_Lexorder"
    "HOL-Library.Multiset"
    "HOL-Library.Sublist"
begin

section \<open>Data model\<close>

text \<open>
  The embedded file is \<^verbatim>\<open>packages/cojson/src/coValue.ts\<close>: the \<^verbatim>\<open>RawCoValue\<close>
  interface, the \<^verbatim>\<open>RawUnknownCoValue\<close> class and the four \<^verbatim>\<open>expect*\<close> helpers.
  The types it imports (\<^verbatim>\<open>CoValueCore\<close>, \<^verbatim>\<open>JsonValue\<close>, \<^verbatim>\<open>RawCoID\<close>) are declared
  in files that are not part of the sources; they are modelled from the data model of
  the specification (section 3).
\<close>

subsection \<open>JSON values and identifiers\<close>

text \<open>Modelled from the spec: \<^verbatim>\<open>jsonValue.ts\<close> and \<^verbatim>\<open>ids.ts\<close> are missing. An object is
  an association list of members; identifiers are opaque textual tokens.\<close>

datatype JsonValue =
    JNull
  | JBool bool
  | JNumber int
  | JString string
  | JArray "JsonValue list"
  | JObject "(string \<times> JsonValue) list"

type_synonym JsonObject = "(string \<times> JsonValue) list"

type_synonym RawCoID = string

type_synonym SessionID = string

type_synonym Digest = "nat list"

type_synonym Signature = "nat list"

subsection \<open>Header, transactions, session logs\<close>

text \<open>Modelled from the spec: the header fields of section 3. The header is the
  immutable part of a CoValue.\<close>

datatype Ruleset = RulesetGroup | OwnedByGroup RawCoID | UnsafeAllowAll

record CoValueHeader =
  type :: string
  ruleset :: Ruleset
  meta :: "JsonObject option"
  createdAt :: nat
  uniqueness :: string

text \<open>Modelled from the spec: the op records of section 4.6. An anchor of a list
  operation is a position identifier (the identifier of the inserting transaction: its
  session and its index in the session), \<^verbatim>\<open>"start"\<close> or \<^verbatim>\<open>"end"\<close>.\<close>

type_synonym TransactionID = "SessionID \<times> nat"

datatype Anchor = AtStart | AtEnd | AtPos TransactionID

datatype Change =
    MapSet string JsonValue
  | MapDel string
  | ListApp Anchor JsonValue
  | ListPre Anchor JsonValue
  | ListDel TransactionID
  | StreamPush JsonValue
  | TextIns Anchor string

datatype Privacy = Trusting | Private

text \<open>Modelled from the spec: the transaction fields of section 3.\<close>

record Transaction =
  madeAt :: nat
  privacy :: Privacy
  changes :: "Change list"
  keyUsed :: "string option"

text \<open>Modelled from the spec: a session log is the ordered sequence of transactions of
  one session, the running chain hash after each of them and the trailing signature.\<close>

record SessionLog =
  transactions :: "Transaction list"
  hashes :: "Digest list"
  lastSignature :: "Signature option"

subsection \<open>CoValueCore\<close>

text \<open>Modelled from the spec: \<^verbatim>\<open>coValueCore.ts\<close> is missing. A core owns the header and
  the session logs of one CoValue (section 4.4), a map from sessions to logs (an
  association list with distinct keys), and the listeners subscribed to it, in
  insertion order. A registration is identified by a token, as a JavaScript closure is
  by its identity. The type parameter is the type of the listeners.\<close>

record 'l CoValueCore =
  id :: RawCoID
  header :: CoValueHeader
  sessions :: "(SessionID, SessionLog) alist"
  listeners :: "(nat \<times> 'l) list"
  nextListener :: nat

subsection \<open>The RawCoValue interface\<close>

text \<open>\<^verbatim>\<open>export interface RawCoValue\<close>: the members that are data. A class that implements
  the interface with more members is a record extension, so the helpers below take a
  record scheme. \<^verbatim>\<open>group\<close> is held by its identifier: cores hold identifiers only.\<close>

record 'l RawCoValue =
  id :: RawCoID
  core :: "'l CoValueCore"
  type :: string
  headerMeta :: "JsonObject option"
  group :: RawCoID
  totalValidTransactions :: nat

datatype error = Error string

section \<open>The dispatch helpers\<close>

text \<open>\<^verbatim>\<open>expectMap\<close>, \<^verbatim>\<open>expectList\<close>, \<^verbatim>\<open>expectStream\<close>, \<^verbatim>\<open>expectPlainText\<close>
  (lines 88 to 118). A \<^verbatim>\<open>throw\<close> is the left injection; the cast of the returned value
  has no effect at run time, so the value returned is the argument.\<close>

definition expectMap :: "('l, 'a) RawCoValue_scheme \<Rightarrow> error + ('l, 'a) RawCoValue_scheme" where
  "expectMap content =
     (if RawCoValue.type content \<noteq> ''comap'' then Inl (Error ''Expected map'')
      else Inr content)"

definition expectList :: "('l, 'a) RawCoValue_scheme \<Rightarrow> error + ('l, 'a) RawCoValue_scheme" where
  "expectList content =
     (if RawCoValue.type content \<noteq> ''colist'' then Inl (Error ''Expected list'')
      else Inr content)"

definition expectStream :: "('l, 'a) RawCoValue_scheme \<Rightarrow> error + ('l, 'a) RawCoValue_scheme" where
  "expectStream content =
     (if RawCoValue.type content \<noteq> ''costream'' then Inl (Error ''Expected stream'')
      else Inr content)"

definition expectPlainText :: "('l, 'a) RawCoValue_scheme \<Rightarrow> error + ('l, 'a) RawCoValue_scheme" where
  "expectPlainText content =
     (if RawCoValue.type content \<noteq> ''coplaintext'' then Inl (Error ''Expected plaintext'')
      else Inr content)"

section \<open>RawUnknownCoValue\<close>

text \<open>\<^verbatim>\<open>export class RawUnknownCoValue implements RawCoValue\<close> (lines 40 to 76). The
  stored fields are \<^verbatim>\<open>id\<close>, \<^verbatim>\<open>core\<close> and \<^verbatim>\<open>totalValidTransactions\<close>; \<^verbatim>\<open>type\<close>,
  \<^verbatim>\<open>headerMeta\<close> and \<^verbatim>\<open>group\<close> are getters that read the core.\<close>

record 'l RawUnknownCoValue =
  id :: RawCoID
  core :: "'l CoValueCore"
  totalValidTransactions :: nat

text \<open>The constructor (lines 45 to 48) with the field initialiser of line 43.\<close>

definition new_RawUnknownCoValue :: "'l CoValueCore \<Rightarrow> 'l RawUnknownCoValue" where
  "new_RawUnknownCoValue c =
     \<lparr> RawUnknownCoValue.id = CoValueCore.id c,
       RawUnknownCoValue.core = c,
       RawUnknownCoValue.totalValidTransactions = 0 \<rparr>"

definition get_type :: "'l RawUnknownCoValue \<Rightarrow> string" where
  "get_type this = CoValueHeader.type (header (RawUnknownCoValue.core this))"

definition get_headerMeta :: "'l RawUnknownCoValue \<Rightarrow> JsonObject option" where
  "get_headerMeta this = meta (header (RawUnknownCoValue.core this))"

definition toJSON :: "'l RawUnknownCoValue \<Rightarrow> JsonValue" where
  "toJSON this = JObject []"

text \<open>\<^verbatim>\<open>atTime() { return this; }\<close>: the method declares no parameter, so the time a
  caller passes is dropped.\<close>

definition atTime :: "'l RawUnknownCoValue \<Rightarrow> nat \<Rightarrow> 'l RawUnknownCoValue" where
  "atTime this time = this"

text \<open>Modelled from the spec: \<^verbatim>\<open>CoValueCore.getGroup\<close> is missing. Section 4.4 (2)
  resolves the governing group as the CoValue itself when the ruleset is \<^verbatim>\<open>group\<close> and
  as the referenced group otherwise.\<close>

definition getGroup :: "'l CoValueCore \<Rightarrow> error + RawCoID" where
  "getGroup c =
     (case ruleset (header c) of
        RulesetGroup \<Rightarrow> Inr (CoValueCore.id c)
      | OwnedByGroup g \<Rightarrow> Inr g
      | UnsafeAllowAll \<Rightarrow> Inl (Error ''no governing group''))"

text \<open>\<^verbatim>\<open>get group() { return this.core.getGroup(); }\<close> (lines 59 to 61).\<close>

definition get_group :: "'l RawUnknownCoValue \<Rightarrow> error + RawCoID" where
  "get_group this = getGroup (RawUnknownCoValue.core this)"

subsection \<open>Subscription\<close>

text \<open>A listener is a callback run for its effect: it takes the notified content and
  transforms the world outside the core.\<close>

type_synonym ('c, 'w) Listener = "'c \<Rightarrow> 'w \<Rightarrow> 'w"

text \<open>Modelled from the spec: the unsubscribe function of a registration (section 4.4
  (5), section 5) removes that registration and no other.\<close>

definition removeListener :: "nat \<Rightarrow> 'l CoValueCore \<Rightarrow> 'l CoValueCore" where
  "removeListener token c = c\<lparr> listeners := filter (\<lambda>r. fst r \<noteq> token) (listeners c) \<rparr>"

text \<open>Modelled from the spec: \<^verbatim>\<open>CoValueCore.subscribe\<close> is missing. Section 4.4 (5):
  listeners are kept in insertion order; the function returned removes the registration
  it was created for.\<close>

definition CoValueCore_subscribe ::
  "'l CoValueCore \<Rightarrow> 'l \<Rightarrow> 'l CoValueCore \<times> ('l CoValueCore \<Rightarrow> 'l CoValueCore)" where
  "CoValueCore_subscribe c listener =
     (c\<lparr> listeners := listeners c @ [(nextListener c, listener)],
         nextListener := Suc (nextListener c) \<rparr>,
      removeListener (nextListener c))"

text \<open>Modelled from the spec: a notification invokes the listeners synchronously, in
  insertion order (section 4.4 (5)).\<close>

definition notifyListeners :: "('c, 'w) Listener CoValueCore \<Rightarrow> 'c \<Rightarrow> 'w \<Rightarrow> 'w" where
  "notifyListeners c content w = foldl (\<lambda>w' r. snd r content w') w (listeners c)"

text \<open>\<^verbatim>\<open>subscribe(listener)\<close> (lines 71 to 75): the handle registers a closure that
  calls \<^verbatim>\<open>listener\<close> with the content it is given, and returns what the core returns.
  \<^verbatim>\<open>core.subscribe\<close> is a parameter: a function from the core and the callback to the
  core with the callback registered and the value it returns (the unsubscribe function).
  The core is mutated through the reference the handle holds, so the handle is returned
  with its core updated.\<close>

definition subscribe ::
  "('k CoValueCore \<Rightarrow> ('c, 'w) Listener \<Rightarrow> 'k CoValueCore \<times> 'u) \<Rightarrow>
     'k RawUnknownCoValue \<Rightarrow> ('c, 'w) Listener \<Rightarrow> 'k RawUnknownCoValue \<times> 'u" where
  "subscribe coreSubscribe this listener =
     (let r = coreSubscribe (RawUnknownCoValue.core this) (\<lambda>content w. listener content w)
      in (this\<lparr> RawUnknownCoValue.core := fst r \<rparr>, snd r))"

section \<open>Session logs\<close>

text \<open>Modelled from the spec: the crypto provider (section 4.1) and the canonical
  encoding (section 6) are external interfaces; they are parameters of the model.
  \<open>signerOf\<close> locates the signing key of the account that owns a session.\<close>

record Provider =
  hash :: "nat list \<Rightarrow> Digest"
  verify :: "string \<Rightarrow> Digest \<Rightarrow> Signature \<Rightarrow> bool"
  canonical :: "Transaction \<Rightarrow> nat list"
  signerOf :: "SessionID \<Rightarrow> string"

text \<open>Modelled from the spec: the reasons for which an append or a message is rejected
  (sections 4.3, 4.8 (3) and 7).\<close>

datatype IngestError = SignatureError | ChainBroken | UnknownDependency

text \<open>Modelled from the spec: the log of a session that has no transaction yet, and the
  hash \<open>h_0\<close> the chain starts from (the empty digest).\<close>

definition emptyLog :: SessionLog where
  "emptyLog = \<lparr> transactions = [], hashes = [], lastSignature = None \<rparr>"

definition initialHash :: Digest where
  "initialHash = []"

text \<open>Modelled from the spec: \<open>h_i = H(h_{i-1} || canonical(tx_i))\<close>.\<close>

definition chainHash :: "Provider \<Rightarrow> Digest \<Rightarrow> Transaction \<Rightarrow> Digest" where
  "chainHash P h tx = hash P (h @ canonical P tx)"

text \<open>Modelled from the spec: the current hash of a session, \<open>h_n\<close>.\<close>

definition lastHash :: "SessionLog \<Rightarrow> Digest" where
  "lastHash log = (if hashes log = [] then initialHash else last (hashes log))"

text \<open>Modelled from the spec: \<^verbatim>\<open>append(tx, signatureAfter)\<close> of section 4.3 requires
  the signature to verify, under the signing key of the session's account, over the
  chain hash after the append.\<close>

definition SessionLog_append ::
  "Provider \<Rightarrow> SessionID \<Rightarrow> SessionLog \<Rightarrow> Transaction \<Rightarrow> Signature \<Rightarrow> IngestError + SessionLog" where
  "SessionLog_append P sid log tx signatureAfter =
     (let h = chainHash P (lastHash log) tx in
      if verify P (signerOf P sid) h signatureAfter
      then Inr \<lparr> transactions = transactions log @ [tx],
                 hashes = hashes log @ [h],
                 lastSignature = Some signatureAfter \<rparr>
      else Inl SignatureError)"

text \<open>Modelled from the spec: \<^verbatim>\<open>verify()\<close> re-derives the chain hash and checks the
  signature. A log without a signature verifies only when it is empty.\<close>

fun rederive :: "Provider \<Rightarrow> Digest \<Rightarrow> Transaction list \<Rightarrow> Digest list" where
  "rederive P h [] = []"
| "rederive P h (tx # txs) = chainHash P h tx # rederive P (chainHash P h tx) txs"

definition SessionLog_verify :: "Provider \<Rightarrow> SessionID \<Rightarrow> SessionLog \<Rightarrow> bool" where
  "SessionLog_verify P sid log =
     (hashes log = rederive P initialHash (transactions log) \<and>
      (case lastSignature log of
         None \<Rightarrow> transactions log = []
       | Some s \<Rightarrow> verify P (signerOf P sid) (lastHash log) s))"

text \<open>A run of appends from a log, stopping at the first refused one.\<close>

fun appendAll ::
  "Provider \<Rightarrow> SessionID \<Rightarrow> SessionLog \<Rightarrow> (Transaction \<times> Signature) list \<Rightarrow> IngestError + SessionLog" where
  "appendAll P sid log [] = Inr log"
| "appendAll P sid log (a # as) =
     (case SessionLog_append P sid log (fst a) (snd a) of
        Inl e \<Rightarrow> Inl e
      | Inr log' \<Rightarrow> appendAll P sid log' as)"

text \<open>The chain invariant as the specification words it (section 3, invariants 1 and 2):
  every stored hash extends its predecessor, and the latest signature is by the account
  that owns the session, over the final hash.\<close>

definition chainIntegrity :: "Provider \<Rightarrow> SessionID \<Rightarrow> SessionLog \<Rightarrow> bool" where
  "chainIntegrity P sid log =
     (length (hashes log) = length (transactions log) \<and>
      list_all (\<lambda>i. hashes log ! i =
                  hash P ((if i = 0 then initialHash else hashes log ! (i - 1))
                          @ canonical P (transactions log ! i)))
               [0..<length (transactions log)] \<and>
      (case lastSignature log of
         None \<Rightarrow> transactions log = []
       | Some s \<Rightarrow> verify P (signerOf P sid) (lastHash log) s))"

section \<open>Ingest of sync messages\<close>

text \<open>Modelled from the spec: the messages of section 4.8. The \<^verbatim>\<open>new\<close> field of
  \<^verbatim>\<open>CONTENT\<close> maps a session to \<^verbatim>\<open>(afterIndex, transactions[], lastSignature)\<close>.\<close>

record NewContent =
  afterIndex :: nat
  newTransactions :: "Transaction list"
  newSignature :: Signature

datatype SyncMessage =
    KNOWN RawCoID "CoValueHeader option" "(SessionID \<times> nat) list"
  | CONTENT RawCoID "CoValueHeader option" "(SessionID, NewContent) alist"
  | LOAD RawCoID "(SessionID \<times> nat) list"
  | DONE RawCoID

text \<open>Modelled from the spec: the node (section 4.7): the account it was opened
  with and its registry of cores.\<close>

record 'l LocalNode =
  account :: string
  coValues :: "(RawCoID, 'l CoValueCore) alist"

text \<open>Modelled from the spec: a core as it is created from its header, and the log of
  a session in a core (empty when the session is new).\<close>

definition newCore :: "RawCoID \<Rightarrow> CoValueHeader \<Rightarrow> 'l CoValueCore" where
  "newCore cid h =
     \<lparr> CoValueCore.id = cid, header = h, sessions = DAList.empty, listeners = [], nextListener = 0 \<rparr>"

definition sessionLog :: "'l CoValueCore \<Rightarrow> SessionID \<Rightarrow> SessionLog" where
  "sessionLog c sid =
     (case DAList.lookup (sessions c) sid of None \<Rightarrow> emptyLog | Some log \<Rightarrow> log)"

definition setSession :: "SessionID \<Rightarrow> SessionLog \<Rightarrow> 'l CoValueCore \<Rightarrow> 'l CoValueCore" where
  "setSession sid log c = c\<lparr> sessions := DAList.update sid log (sessions c) \<rparr>"

text \<open>Modelled from the spec: transaction ingest of section 4.4 (1). The first new
  transaction must have index \<open>lastIndex + 1\<close>; the chain hash is extended over each
  transaction; the signature is checked once, at the end of the batch.\<close>

fun extendChain :: "Provider \<Rightarrow> SessionLog \<Rightarrow> Transaction list \<Rightarrow> SessionLog" where
  "extendChain P log [] = log"
| "extendChain P log (tx # txs) =
     extendChain P
       (log\<lparr> transactions := transactions log @ [tx],
             hashes := hashes log @ [chainHash P (lastHash log) tx] \<rparr>) txs"

text \<open>Modelled from the spec: the ingest of the new content of one session, with the
  errors \<^verbatim>\<open>ChainBroken\<close> and \<^verbatim>\<open>SignatureInvalid\<close> of section 7.\<close>

definition ingestSession ::
  "Provider \<Rightarrow> SessionID \<Rightarrow> NewContent \<Rightarrow> SessionLog \<Rightarrow> IngestError + SessionLog" where
  "ingestSession P sid nc log =
     (if afterIndex nc \<noteq> length (transactions log) then Inl ChainBroken
      else let log' = extendChain P log (newTransactions nc) in
        if verify P (signerOf P sid) (lastHash log') (newSignature nc)
        then Inr (log'\<lparr> lastSignature := Some (newSignature nc) \<rparr>)
        else Inl SignatureError)"

text \<open>Modelled from the spec: the sessions of a message are ingested one after the
  other; the first error rejects the whole message.\<close>

fun ingestSessions ::
  "Provider \<Rightarrow> (SessionID \<times> NewContent) list \<Rightarrow> 'l CoValueCore \<Rightarrow> IngestError + 'l CoValueCore" where
  "ingestSessions P [] c = Inr c"
| "ingestSessions P (e # rest) c =
     (case ingestSession P (fst e) (snd e) (sessionLog c (fst e)) of
        Inl err \<Rightarrow> Inl err
      | Inr log \<Rightarrow> ingestSessions P rest (setSession (fst e) log c))"

text \<open>Modelled from the spec: \<^verbatim>\<open>CONTENT\<close> is applied all-or-nothing (section 4.8 (3)).
  An unknown header, or a governing group that is not loaded, is a missing dependency.\<close>

definition groupMissing :: "'l LocalNode \<Rightarrow> 'l CoValueCore \<Rightarrow> bool" where
  "groupMissing node c =
     (case ruleset (header c) of
        OwnedByGroup g \<Rightarrow> DAList.lookup (coValues node) g = None
      | _ \<Rightarrow> False)"

definition ingestContent ::
  "Provider \<Rightarrow> RawCoID \<Rightarrow> CoValueHeader option \<Rightarrow> (SessionID, NewContent) alist \<Rightarrow>
     'l LocalNode \<Rightarrow> IngestError + 'l LocalNode" where
  "ingestContent P cid hdr new node =
     (case (case DAList.lookup (coValues node) cid of
              Some c \<Rightarrow> Some c
            | None \<Rightarrow> map_option (newCore cid) hdr) of
        None \<Rightarrow> Inl UnknownDependency
      | Some c \<Rightarrow>
          if groupMissing node c then Inl UnknownDependency
          else (case ingestSessions P (DAList.impl_of new) c of
                  Inl err \<Rightarrow> Inl err
                | Inr c' \<Rightarrow> Inr (node\<lparr> coValues := DAList.update cid c' (coValues node) \<rparr>)))"

text \<open>Modelled from the spec: a rejected message leaves the node as it was; \<^verbatim>\<open>KNOWN\<close>,
  \<^verbatim>\<open>LOAD\<close> and \<^verbatim>\<open>DONE\<close> carry no transactions and change no core.\<close>

fun applyMessage :: "Provider \<Rightarrow> SyncMessage \<Rightarrow> 'l LocalNode \<Rightarrow> 'l LocalNode" where
  "applyMessage P (CONTENT cid hdr new) node =
     (case ingestContent P cid hdr new node of Inl err \<Rightarrow> node | Inr node' \<Rightarrow> node')"
| "applyMessage P (KNOWN cid hdr ss) node = node"
| "applyMessage P (LOAD cid ss) node = node"
| "applyMessage P (DONE cid) node = node"

text \<open>Modelled from the spec: \<^verbatim>\<open>knownState()\<close> of section 4.3, per core.\<close>

definition knownState :: "'l CoValueCore \<Rightarrow> (SessionID \<times> nat \<times> Signature option) list" where
  "knownState c =
     map (\<lambda>e. (fst e, length (transactions (snd e)), lastSignature (snd e)))
       (DAList.impl_of (sessions c))"

section \<open>Materialized views\<close>

text \<open>Modelled from the spec: the merged view is a fold over the validated transactions
  in a deterministic order (section 3), the lexicographic order of
  \<open>(madeAt, sessionID, indexInSession)\<close>. A node holds the transactions it has
  received as a list, in the order of their arrival; each carries its identifier.\<close>

type_synonym StampedTx = "TransactionID \<times> Transaction"

definition causalKey :: "StampedTx \<Rightarrow> nat \<times> SessionID \<times> nat" where
  "causalKey t = (madeAt (snd t), fst (fst t), snd (fst t))"

definition causalOrder :: "StampedTx list \<Rightarrow> StampedTx list" where
  "causalOrder txs = sort_key causalKey txs"

subsection \<open>CoMap\<close>

text \<open>Modelled from the spec: \<^verbatim>\<open>{op: "set", key, value}\<close> and \<^verbatim>\<open>{op: "del", key}\<close>;
  the fold is last-writer-wins per key. Other changes are not map operations.\<close>

fun applyMapChange :: "(string \<rightharpoonup> JsonValue) \<Rightarrow> Change \<Rightarrow> (string \<rightharpoonup> JsonValue)" where
  "applyMapChange m (MapSet k v) = m(k \<mapsto> v)"
| "applyMapChange m (MapDel k) = m(k := None)"
| "applyMapChange m c = m"

definition applyMapTx :: "(string \<rightharpoonup> JsonValue) \<Rightarrow> StampedTx \<Rightarrow> (string \<rightharpoonup> JsonValue)" where
  "applyMapTx m t = foldl applyMapChange m (changes (snd t))"

definition coMapView :: "StampedTx list \<Rightarrow> (string \<rightharpoonup> JsonValue)" where
  "coMapView txs = foldl applyMapTx Map.empty (causalOrder txs)"

text \<open>The key a change writes and the value a read returns after it.\<close>

fun writtenKey :: "Change \<Rightarrow> string option" where
  "writtenKey (MapSet k v) = Some k"
| "writtenKey (MapDel k) = Some k"
| "writtenKey c = None"

fun writtenValue :: "Change \<Rightarrow> JsonValue option" where
  "writtenValue (MapSet k v) = Some v"
| "writtenValue c = None"

definition writesKey :: "string \<Rightarrow> StampedTx \<Rightarrow> bool" where
  "writesKey k t = list_ex (\<lambda>c. writtenKey c = Some k) (changes (snd t))"

subsection \<open>CoList and CoPlainText\<close>

text \<open>Modelled from the spec: the list is a sequence of slots, each with its position
  identifier (the identifier of the transaction that introduced it) and its value. The
  anchors \<^verbatim>\<open>"start"\<close> and \<^verbatim>\<open>"end"\<close> are slots of their own that hold no element.\<close>

type_synonym ListEntry = "Anchor \<times> JsonValue"

definition emptyList :: "ListEntry list" where
  "emptyList = [(AtStart, JNull), (AtEnd, JNull)]"

text \<open>Modelled from the spec: an insertion places a run of slots after or before its
  anchor: one slot for \<^verbatim>\<open>{op: "app"}\<close> and \<^verbatim>\<open>{op: "pre"}\<close>, and for
  \<^verbatim>\<open>{op: "ins", after, text}\<close> a contiguous run of single characters that share the
  anchor.\<close>

datatype Insertion =
    InsertAfter Anchor "ListEntry list"
  | InsertBefore Anchor "ListEntry list"

fun anchorOf :: "Insertion \<Rightarrow> Anchor" where
  "anchorOf (InsertAfter a run) = a"
| "anchorOf (InsertBefore b run) = b"

fun listInsertion :: "TransactionID \<Rightarrow> Change \<Rightarrow> Insertion list" where
  "listInsertion tid (ListApp a v) = [InsertAfter a [(AtPos tid, v)]]"
| "listInsertion tid (ListPre b v) = [InsertBefore b [(AtPos tid, v)]]"
| "listInsertion tid c = []"

fun textInsertion :: "TransactionID \<Rightarrow> Change \<Rightarrow> Insertion list" where
  "textInsertion tid (TextIns a text) = [InsertAfter a (map (\<lambda>ch. (AtPos tid, JString [ch])) text)]"
| "textInsertion tid c = listInsertion tid c"

text \<open>Modelled from the spec: the insertions of the transactions, in causal order;
  those of one transaction in the order of its changes.\<close>

definition insertionsOf ::
  "(TransactionID \<Rightarrow> Change \<Rightarrow> Insertion list) \<Rightarrow> StampedTx list \<Rightarrow> Insertion list" where
  "insertionsOf f txs =
     concat (map (\<lambda>t. concat (map (f (fst t)) (changes (snd t)))) (causalOrder txs))"

text \<open>Modelled from the spec: placing a run right behind, or right before, the first
  slot of its anchor. Both are applied only to an anchor that is in the list: an
  insertion whose anchor is not in the list is not placed, it waits (see \<open>settle\<close>).\<close>

fun insertAfter :: "Anchor \<Rightarrow> ListEntry list \<Rightarrow> ListEntry list \<Rightarrow> ListEntry list" where
  "insertAfter a run [] = []"
| "insertAfter a run (x # xs) = (if fst x = a then x # run @ xs else x # insertAfter a run xs)"

fun insertBefore :: "Anchor \<Rightarrow> ListEntry list \<Rightarrow> ListEntry list \<Rightarrow> ListEntry list" where
  "insertBefore b run [] = []"
| "insertBefore b run (x # xs) = (if fst x = b then run @ x # xs else x # insertBefore b run xs)"

fun land :: "ListEntry list \<Rightarrow> Insertion \<Rightarrow> ListEntry list" where
  "land es (InsertAfter a run) = insertAfter a run es"
| "land es (InsertBefore b run) = insertBefore b run es"

definition anchored :: "ListEntry list \<Rightarrow> Insertion \<Rightarrow> bool" where
  "anchored es i = (anchorOf i \<in> fst ` set es)"

text \<open>Modelled from the spec: the order of iteration (section 4.6). No insertion is
  lost: one whose anchor is not in the list yet waits for it, since its anchor may have
  been made, or may be ordered, after it (the clocks of the writers are not
  synchronised, section 3). The insertions whose anchor is in the list are placed in
  causal order, each next to its anchor, so that of the insertions after one anchor the
  newer one is nearer to it; then those that waited for the slots just placed, and so
  on. An insertion whose anchor never becomes a position of the list is retained and has
  no place in the iteration.\<close>

function settle :: "ListEntry list \<Rightarrow> Insertion list \<Rightarrow> ListEntry list" where
  "settle es waiting =
     (if filter (anchored es) waiting = [] then es
      else settle (foldl land es (filter (anchored es) waiting))
             (filter (\<lambda>i. \<not> anchored es i) waiting))"
  by pat_completeness auto

termination
proof (relation "measure (\<lambda>p. length (snd p))")
  show "wf (measure (\<lambda>p. length (snd p)))" by simp
next
  fix es :: "ListEntry list" and waiting :: "Insertion list"
  assume ne: "filter (anchored es) waiting \<noteq> []"
  have "length (filter (\<lambda>i. \<not> anchored es i) waiting) < length waiting"
    using sum_length_filter_compl [of "anchored es" waiting] ne
    by (cases "filter (anchored es) waiting") auto
  then show "((foldl land es (filter (anchored es) waiting), filter (\<lambda>i. \<not> anchored es i) waiting),
         (es, waiting)) \<in> measure (\<lambda>p. length (snd p))"
    by simp
qed

declare settle.simps [simp del]

definition coListEntries :: "StampedTx list \<Rightarrow> ListEntry list" where
  "coListEntries txs = settle emptyList (insertionsOf listInsertion txs)"

text \<open>Modelled from the spec: \<^verbatim>\<open>{op: "del", pos}\<close> is a tombstone. A tombstoned
  position is skipped in the iteration and its slot persists, so the insertions anchored
  at it keep their place; a position is tombstoned when a transaction deletes it,
  wherever that transaction stands in the causal order.\<close>

definition tombstoned :: "StampedTx list \<Rightarrow> TransactionID \<Rightarrow> bool" where
  "tombstoned txs p = list_ex (\<lambda>t. ListDel p \<in> set (changes (snd t))) txs"

definition visible :: "StampedTx list \<Rightarrow> ListEntry \<Rightarrow> bool" where
  "visible txs e = (case fst e of AtPos p \<Rightarrow> \<not> tombstoned txs p | _ \<Rightarrow> False)"

definition iteration :: "StampedTx list \<Rightarrow> ListEntry list \<Rightarrow> JsonValue list" where
  "iteration txs es = map snd (filter (visible txs) es)"

definition coListView :: "StampedTx list \<Rightarrow> JsonValue list" where
  "coListView txs = iteration txs (coListEntries txs)"

text \<open>Modelled from the spec: a CoPlainText is a CoList of single characters.\<close>

fun characters :: "JsonValue \<Rightarrow> string" where
  "characters (JString s) = s"
| "characters v = []"

definition coPlainTextView :: "StampedTx list \<Rightarrow> string" where
  "coPlainTextView txs =
     concat (map characters (iteration txs (settle emptyList (insertionsOf textInsertion txs))))"

subsection \<open>CoStream\<close>

text \<open>Modelled from the spec: for each session, the ordered list of its entries.\<close>

fun pushed :: "Change \<Rightarrow> JsonValue list" where
  "pushed (StreamPush v) = [v]"
| "pushed c = []"

definition coStreamView :: "StampedTx list \<Rightarrow> SessionID \<Rightarrow> JsonValue list" where
  "coStreamView txs sid =
     concat (map (\<lambda>t. concat (map pushed (changes (snd t))))
               (sort_key (\<lambda>t. snd (fst t)) (filter (\<lambda>t. fst (fst t) = sid) txs)))"

subsection \<open>The view of a CoValue\<close>

datatype View =
    MapView "string \<rightharpoonup> JsonValue"
  | ListView "JsonValue list"
  | StreamView "SessionID \<Rightarrow> JsonValue list"
  | TextView string
  | NoView

text \<open>Modelled from the spec: the fold is chosen by the header's type; accounts and
  groups are maps (section 4.5).\<close>

definition materialize :: "string \<Rightarrow> StampedTx list \<Rightarrow> View" where
  "materialize ty txs =
     (if ty = ''comap'' \<or> ty = ''account'' \<or> ty = ''group'' then MapView (coMapView txs)
      else if ty = ''colist'' then ListView (coListView txs)
      else if ty = ''costream'' then StreamView (coStreamView txs)
      else if ty = ''coplaintext'' then TextView (coPlainTextView txs)
      else NoView)"

text \<open>Modelled from the spec: the transactions a core has received, each with its
  identifier: the session and the index in the session.\<close>

definition stamp :: "SessionID \<times> SessionLog \<Rightarrow> StampedTx list" where
  "stamp e = map (\<lambda>p. ((fst e, fst p), snd p)) (enumerate 0 (transactions (snd e)))"

definition received :: "'l CoValueCore \<Rightarrow> StampedTx list" where
  "received c = concat (map stamp (DAList.impl_of (sessions c)))"

text \<open>Modelled from the spec: validation of section 4.4 (2). The verdict on a
  transaction is computed from the transactions of the governing group that precede it
  in the causal order, folded in that order (section 4.5): role changes are themselves
  transactions. Under \<^verbatim>\<open>unsafeAllowAll\<close> there is no governing group and every
  transaction is valid. The check on the folded transactions (roles, invites,
  inheritance) is the parameter \<open>permits\<close>: it is given the transactions of the group
  before the causal position, in causal order, and the transaction to judge.\<close>

type_synonym Permission = "StampedTx list \<Rightarrow> StampedTx \<Rightarrow> bool"

definition upToPoint :: "StampedTx list \<Rightarrow> StampedTx \<Rightarrow> StampedTx list" where
  "upToPoint gtxs t = causalOrder (filter (\<lambda>g. causalKey g < causalKey t) gtxs)"

definition permitted :: "Permission \<Rightarrow> Ruleset \<Rightarrow> StampedTx list \<Rightarrow> StampedTx \<Rightarrow> bool" where
  "permitted permits rs gtxs t =
     (case rs of
        UnsafeAllowAll \<Rightarrow> True
      | _ \<Rightarrow> permits (upToPoint gtxs t) t)"




text \<open>Modelled from the spec: decryption of section 4.4 (3). The key of an epoch is
  sealed for an account by an entry \<^verbatim>\<open><accountID>_<epochID>\<close> of the governing group
  (section 4.5). A reader reads a private transaction only when its account has been
  sealed into the epoch the transaction names; otherwise the transaction is retained and
  the view omits it. \<open>changes\<close> of a private transaction stands for its payload once
  decrypted.\<close>

fun sealsFor :: "string \<Rightarrow> string \<Rightarrow> Change \<Rightarrow> bool" where
  "sealsFor reader epoch (MapSet k v) = (k = reader @ ''_'' @ epoch)"
| "sealsFor reader epoch c = False"

definition sealedInto :: "string \<Rightarrow> StampedTx list \<Rightarrow> string \<Rightarrow> bool" where
  "sealedInto reader gtxs epoch =
     list_ex (\<lambda>g. list_ex (sealsFor reader epoch) (changes (snd g))) gtxs"

definition decryptable :: "string \<Rightarrow> StampedTx list \<Rightarrow> Transaction \<Rightarrow> bool" where
  "decryptable reader gtxs tx =
     (case privacy tx of
        Trusting \<Rightarrow> True
      | Private \<Rightarrow> (case keyUsed tx of None \<Rightarrow> False | Some e \<Rightarrow> sealedInto reader gtxs e))"

text \<open>Modelled from the spec: the transactions a reader's view is derived from, those
  validated and decrypted. \<open>gtxs\<close> are the transactions received for the governing
  group.\<close>

definition readable ::
  "Permission \<Rightarrow> string \<Rightarrow> Ruleset \<Rightarrow> StampedTx list \<Rightarrow> StampedTx list \<Rightarrow> StampedTx list" where
  "readable permits reader rs gtxs txs =
     filter (\<lambda>t. permitted permits rs gtxs t \<and> decryptable reader gtxs (snd t)) txs"

text \<open>Modelled from the spec: \<^verbatim>\<open>recompute(sessions)\<close> of section 4.4 (4). The view
  is derived from the validated, decrypted transactions.\<close>

definition recompute :: "Permission \<Rightarrow> string \<Rightarrow> StampedTx list \<Rightarrow> 'l CoValueCore \<Rightarrow> View" where
  "recompute permits reader gtxs c =
     materialize (CoValueHeader.type (header c))
       (readable permits reader (ruleset (header c)) gtxs (received c))"

section \<open>Operations in the lifetime of a handle\<close>

text \<open>The operations a \<^verbatim>\<open>RawUnknownCoValue\<close> offers (lines 50 to 75), and those of
  the core it refers to (\<^verbatim>\<open>coValueCore.ts\<close> is missing; they are the operations of
  section 4.4 of the specification): ingest of new content for a session, subscription
  and unsubscription. The handle holds a reference to its core, so an operation on the
  core is seen through the handle.\<close>

datatype 'l Operation =
    ReadType
  | ReadHeaderMeta
  | ReadGroup
  | CallToJSON
  | CallAtTime nat
  | CallSubscribe 'l
  | CoreIngest SessionID NewContent
  | CoreSubscribe 'l
  | CoreUnsubscribe nat

text \<open>Modelled from the spec: the ingest of new content for one session of a core; a
  rejected batch leaves the core as it was.\<close>

definition coreIngest :: "Provider \<Rightarrow> SessionID \<Rightarrow> NewContent \<Rightarrow> 'l CoValueCore \<Rightarrow> 'l CoValueCore" where
  "coreIngest P sid nc c =
     (case ingestSession P sid nc (sessionLog c sid) of
        Inl err \<Rightarrow> c
      | Inr log \<Rightarrow> setSession sid log c)"

fun perform ::
  "Provider \<Rightarrow> ('c, 'w) Listener RawUnknownCoValue \<Rightarrow> ('c, 'w) Listener Operation \<Rightarrow>
     ('c, 'w) Listener RawUnknownCoValue" where
  "perform P this ReadType = this"
| "perform P this ReadHeaderMeta = this"
| "perform P this ReadGroup = this"
| "perform P this CallToJSON = this"
| "perform P this (CallAtTime t) = atTime this t"
| "perform P this (CallSubscribe l) = fst (subscribe CoValueCore_subscribe this l)"
| "perform P this (CoreIngest sid nc) =
     this\<lparr> RawUnknownCoValue.core := coreIngest P sid nc (RawUnknownCoValue.core this) \<rparr>"
| "perform P this (CoreSubscribe l) =
     this\<lparr> RawUnknownCoValue.core := fst (CoValueCore_subscribe (RawUnknownCoValue.core this) l) \<rparr>"
| "perform P this (CoreUnsubscribe token) =
     this\<lparr> RawUnknownCoValue.core := removeListener token (RawUnknownCoValue.core this) \<rparr>"





text \<open>The handle made for a core, after a sequence of operations.\<close>

definition lifetime ::
  "Provider \<Rightarrow> ('c, 'w) Listener CoValueCore \<Rightarrow> ('c, 'w) Listener Operation list \<Rightarrow>
     ('c, 'w) Listener RawUnknownCoValue" where
  "lifetime P c ops = foldl (perform P) (new_RawUnknownCoValue c) ops"

section \<open>Example values\<close>

definition unknownHeader :: CoValueHeader where
  "unknownHeader =
     \<lparr> CoValueHeader.type = ''cofuture'', ruleset = UnsafeAllowAll,
       meta = Some [(''kind'', JString ''x'')], createdAt = 7, uniqueness = ''u1'' \<rparr>"

definition tx1 :: Transaction where
  "tx1 = \<lparr> madeAt = 1, privacy = Trusting, changes = [MapSet ''k'' (JString ''x'')], keyUsed = None \<rparr>"

definition tx2 :: Transaction where
  "tx2 = \<lparr> madeAt = 9, privacy = Trusting, changes = [MapSet ''k'' (JString ''y'')], keyUsed = None \<rparr>"

definition unknownCore :: "('c, 'w) Listener CoValueCore" where
  "unknownCore =
     \<lparr> CoValueCore.id = ''co_zUnknown'', header = unknownHeader,
       sessions = DAList.update ''co_zA_session_z1''
                    \<lparr> transactions = [tx1, tx2], hashes = [[1], [2]], lastSignature = Some [3] \<rparr>
                    DAList.empty,
       listeners = [], nextListener = 0 \<rparr>"


definition mapContent :: "unit RawCoValue" where
  "mapContent =
     \<lparr> RawCoValue.id = ''co_zMap'',
       RawCoValue.core = newCore ''co_zMap'' (unknownHeader\<lparr> CoValueHeader.type := ''comap'' \<rparr>),
       RawCoValue.type = ''comap'', headerMeta = None, group = ''co_zGroup'',
       RawCoValue.totalValidTransactions = 0 \<rparr>"

definition toyProvider :: Provider where
  "toyProvider =
     \<lparr> hash = (\<lambda>bs. [sum_list bs mod 97, length bs]),
       verify = (\<lambda>pk h s. s = h @ [length pk]),
       canonical = (\<lambda>tx. [madeAt tx, length (changes tx)]),
       signerOf = (\<lambda>sid. ''signer_'' @ take 5 sid) \<rparr>"

definition signedLog :: SessionLog where
  "signedLog = \<lparr> transactions = [tx1], hashes = [[2, 2]], lastSignature = Some [2, 2, 12] \<rparr>"

section \<open>Auxiliary notions of the statements\<close>

text \<open>The part of a list behind the first slot of an anchor.\<close>

definition behind :: "Anchor \<Rightarrow> ListEntry list \<Rightarrow> ListEntry list" where
  "behind a es = tl (dropWhile (\<lambda>x. fst x \<noteq> a) es)"

text \<open>Modelled from the spec: the transactions a node has received for the governing
  group of a CoValue (section 4.4 (2)): those of the CoValue itself when it is a group,
  those of the group it names otherwise.\<close>

definition governingTxs :: "'l LocalNode \<Rightarrow> 'l CoValueCore \<Rightarrow> StampedTx list" where
  "governingTxs node c =
     (case ruleset (header c) of
        RulesetGroup \<Rightarrow> received c
      | OwnedByGroup g \<Rightarrow>
          (case DAList.lookup (coValues node) g of None \<Rightarrow> [] | Some gc \<Rightarrow> received gc)
      | UnsafeAllowAll \<Rightarrow> [])"

text \<open>The session logs, the view and the known state of a CoValue in a node. The
  reader of a node's views is the account of the node.\<close>

definition viewOf :: "Permission \<Rightarrow> 'l LocalNode \<Rightarrow> RawCoID \<Rightarrow> View option" where
  "viewOf permits node cid =
     map_option (\<lambda>c. recompute permits (account node) (governingTxs node c) c)
       (DAList.lookup (coValues node) cid)"

definition knownStateOf ::
  "'l LocalNode \<Rightarrow> RawCoID \<Rightarrow> (SessionID \<times> nat \<times> Signature option) list option" where
  "knownStateOf node cid = map_option knownState (DAList.lookup (coValues node) cid)"

definition sessionsOf :: "'l LocalNode \<Rightarrow> RawCoID \<Rightarrow> (SessionID, SessionLog) alist option" where
  "sessionsOf node cid = map_option sessions (DAList.lookup (coValues node) cid)"

section \<open>More example values\<close>

definition setX :: StampedTx where
  "setX = ((''co_zA_session_z1'', 0),
           \<lparr> madeAt = 5, privacy = Trusting, changes = [MapSet ''k'' (JString ''x'')], keyUsed = None \<rparr>)"

definition setY :: StampedTx where
  "setY = ((''co_zB_session_z1'', 0),
           \<lparr> madeAt = 5, privacy = Trusting, changes = [MapSet ''k'' (JString ''y'')], keyUsed = None \<rparr>)"

definition insA :: StampedTx where
  "insA = ((''co_zA_session_z1'', 0),
           \<lparr> madeAt = 1, privacy = Trusting, changes = [ListApp AtStart (JString ''a'')], keyUsed = None \<rparr>)"

definition insB :: StampedTx where
  "insB = ((''co_zA_session_z1'', 1),
           \<lparr> madeAt = 2, privacy = Trusting,
             changes = [ListApp (AtPos (''co_zA_session_z1'', 0)) (JString ''b'')], keyUsed = None \<rparr>)"

definition insC :: StampedTx where
  "insC = ((''co_zX_session_z1'', 0),
           \<lparr> madeAt = 3, privacy = Trusting,
             changes = [ListApp (AtPos (''co_zA_session_z1'', 0)) (JString ''c'')], keyUsed = None \<rparr>)"

definition insD :: StampedTx where
  "insD = ((''co_zY_session_z1'', 0),
           \<lparr> madeAt = 3, privacy = Trusting,
             changes = [ListApp (AtPos (''co_zA_session_z1'', 0)) (JString ''d'')], keyUsed = None \<rparr>)"

text \<open>Insertions under clocks that disagree: the element \<open>a\<close> is made at 10; \<open>c\<close> is
  inserted after it by a writer whose clock reads 5, \<open>e\<close> in the millisecond of \<open>a\<close>
  by a session that sorts before the session of \<open>a\<close>, \<open>d\<close> at 11.\<close>

definition lateA :: StampedTx where
  "lateA = ((''co_zZ_session_z1'', 0),
            \<lparr> madeAt = 10, privacy = Trusting, changes = [ListApp AtStart (JString ''a'')], keyUsed = None \<rparr>)"

definition earlyC :: StampedTx where
  "earlyC = ((''co_zX_session_z1'', 0),
             \<lparr> madeAt = 5, privacy = Trusting,
               changes = [ListApp (AtPos (''co_zZ_session_z1'', 0)) (JString ''c'')], keyUsed = None \<rparr>)"

definition sameE :: StampedTx where
  "sameE = ((''co_zX_session_z1'', 1),
            \<lparr> madeAt = 10, privacy = Trusting,
              changes = [ListApp (AtPos (''co_zZ_session_z1'', 0)) (JString ''e'')], keyUsed = None \<rparr>)"

definition laterD :: StampedTx where
  "laterD = ((''co_zY_session_z1'', 0),
             \<lparr> madeAt = 11, privacy = Trusting,
               changes = [ListApp (AtPos (''co_zZ_session_z1'', 0)) (JString ''d'')], keyUsed = None \<rparr>)"

definition mapHeader :: CoValueHeader where
  "mapHeader =
     \<lparr> CoValueHeader.type = ''comap'', ruleset = UnsafeAllowAll, meta = None,
       createdAt = 3, uniqueness = ''u2'' \<rparr>"














definition contentMessage :: SyncMessage where
  "contentMessage =
     CONTENT ''co_zMap'' (Some mapHeader)
       (DAList.update ''co_zA_session_z1''
          \<lparr> afterIndex = 0, newTransactions = [tx1], newSignature = [2, 2, 12] \<rparr>
          DAList.empty)"

definition emptyNode :: "unit LocalNode" where
  "emptyNode = \<lparr> account = ''co_zA'', coValues = DAList.empty \<rparr>"

section \<open>Dispatch helpers: the tag decides\<close>

text \<open>
  Claim C1. For every value \<open>content\<close> of the interface type, each of \<open>expectMap\<close>,
  \<open>expectList\<close>, \<open>expectStream\<close> and \<open>expectPlainText\<close> returns \<open>content\<close> itself when
  \<open>content.type\<close> is its tag (\<open>comap\<close>, \<open>colist\<close>, \<open>costream\<close>, \<open>coplaintext\<close>) and
  throws an error otherwise: it throws if and only if the tag does not match.
\<close>

theorem expect_dispatch:
  fixes content :: "('l, 'a) RawCoValue_scheme"
  shows "(RawCoValue.type content = ''comap'' \<longrightarrow> expectMap content = Inr content)
    \<and> (RawCoValue.type content = ''colist'' \<longrightarrow> expectList content = Inr content)
    \<and> (RawCoValue.type content = ''costream'' \<longrightarrow> expectStream content = Inr content)
    \<and> (RawCoValue.type content = ''coplaintext'' \<longrightarrow> expectPlainText content = Inr content)
    \<and> (isl (expectMap content) \<longleftrightarrow> RawCoValue.type content \<noteq> ''comap'')
    \<and> (isl (expectList content) \<longleftrightarrow> RawCoValue.type content \<noteq> ''colist'')
    \<and> (isl (expectStream content) \<longleftrightarrow> RawCoValue.type content \<noteq> ''costream'')
    \<and> (isl (expectPlainText content) \<longleftrightarrow> RawCoValue.type content \<noteq> ''coplaintext'')"
  by (simp add: expectMap_def expectList_def expectStream_def expectPlainText_def)

theorem expect_dispatch_witness:
  "expectMap mapContent = Inr mapContent
    \<and> isl (expectList mapContent) \<and> isl (expectStream mapContent) \<and> isl (expectPlainText mapContent)
    \<and> \<not> isl (expectMap mapContent)"
  using expect_dispatch [of mapContent] by (simp add: mapContent_def)

section \<open>Operations keep the identifier and the header\<close>

lemma perform_id: "RawUnknownCoValue.id (perform P this op) = RawUnknownCoValue.id this"
  by (cases op) (simp_all add: atTime_def subscribe_def Let_def)

lemma perform_total:
  "RawUnknownCoValue.totalValidTransactions (perform P this op)
     = RawUnknownCoValue.totalValidTransactions this"
  by (cases op) (simp_all add: atTime_def subscribe_def Let_def)

lemma coreIngest_fixed:
  "CoValueCore.id (coreIngest P sid nc c) = CoValueCore.id c
   \<and> header (coreIngest P sid nc c) = header c"
  by (simp add: coreIngest_def setSession_def split: sum.splits)

lemma perform_core_fixed:
  "CoValueCore.id (RawUnknownCoValue.core (perform P this op))
     = CoValueCore.id (RawUnknownCoValue.core this)
   \<and> header (RawUnknownCoValue.core (perform P this op)) = header (RawUnknownCoValue.core this)"
  by (cases op) (simp_all add: atTime_def subscribe_def Let_def CoValueCore_subscribe_def
      removeListener_def coreIngest_fixed)

lemma run_fixed:
  "RawUnknownCoValue.id (foldl (perform P) this ops) = RawUnknownCoValue.id this
   \<and> CoValueCore.id (RawUnknownCoValue.core (foldl (perform P) this ops))
       = CoValueCore.id (RawUnknownCoValue.core this)
   \<and> header (RawUnknownCoValue.core (foldl (perform P) this ops))
       = header (RawUnknownCoValue.core this)
   \<and> RawUnknownCoValue.totalValidTransactions (foldl (perform P) this ops)
       = RawUnknownCoValue.totalValidTransactions this"
proof (induction ops arbitrary: this)
  case Nil
  show ?case by simp
next
  case (Cons op ops)
  show ?case
    using Cons.IH [of "perform P this op"] perform_id [of P this op]
      perform_core_fixed [of P this op] perform_total [of P this op]
    by simp
qed

section \<open>The unknown CoValue is empty\<close>

text \<open>
  Claim C8. The handle made for a core of an unknown type has \<open>toJSON() = {}\<close> and
  \<open>totalValidTransactions = 0\<close>, whatever transactions the core holds: the statement is
  for every core, replacing the session logs of the core changes neither, and neither
  changes in the lifetime of the handle.
\<close>

theorem unknown_materializes_empty:
  "toJSON (new_RawUnknownCoValue c) = JObject []
   \<and> RawUnknownCoValue.totalValidTransactions (new_RawUnknownCoValue c) = 0
   \<and> toJSON (new_RawUnknownCoValue (c\<lparr> sessions := ss \<rparr>)) = toJSON (new_RawUnknownCoValue c)
   \<and> RawUnknownCoValue.totalValidTransactions (new_RawUnknownCoValue (c\<lparr> sessions := ss \<rparr>)) = 0
   \<and> toJSON (lifetime P c ops) = JObject []
   \<and> RawUnknownCoValue.totalValidTransactions (lifetime P c ops) = 0"
  using run_fixed [of P "new_RawUnknownCoValue c" ops]
  by (simp add: toJSON_def new_RawUnknownCoValue_def lifetime_def)

section \<open>The accessors in the lifetime of a handle\<close>

text \<open>
  Claim C9. At every point in the lifetime of a \<open>RawUnknownCoValue\<close> (after any sequence
  of operations on the handle or on its core), the \<open>type\<close> getter returns
  \<open>core.header.type\<close>, the \<open>headerMeta\<close> getter returns \<open>core.header.meta\<close> and \<open>id\<close>
  equals \<open>core.id\<close>; and these are the values of the core the handle was made for: no
  operation changes them.
\<close>

theorem accessors_stable:
  "get_type (lifetime P c ops) = CoValueHeader.type (header (RawUnknownCoValue.core (lifetime P c ops)))
    \<and> get_headerMeta (lifetime P c ops) = meta (header (RawUnknownCoValue.core (lifetime P c ops)))
    \<and> RawUnknownCoValue.id (lifetime P c ops) = CoValueCore.id (RawUnknownCoValue.core (lifetime P c ops))
    \<and> get_type (lifetime P c ops) = CoValueHeader.type (header c)
    \<and> get_headerMeta (lifetime P c ops) = meta (header c)
    \<and> RawUnknownCoValue.id (lifetime P c ops) = CoValueCore.id c"
  unfolding lifetime_def get_type_def get_headerMeta_def
  using run_fixed [of P "new_RawUnknownCoValue c" ops]
  by (simp add: new_RawUnknownCoValue_def)

section \<open>Subscription through the handle\<close>

text \<open>
  Claim C10. \<open>subscribe(listener)\<close> registers with the core a callback that invokes
  \<open>listener\<close> exactly once with the content it is given, and returns the unsubscribe
  function that \<open>core.subscribe\<close> produced, whatever \<open>core.subscribe\<close> is. With the
  core's registry of the specification, a notification of the core reaches the listener
  exactly once, with the notified content, after the listeners registered before it;
  once the unsubscribe function has run, a notification no longer reaches it.
\<close>

theorem subscribe_registers:
  fixes this :: "('c, 'w) Listener RawUnknownCoValue"
    and that :: "'k RawUnknownCoValue"
    and coreSubscribe :: "'k CoValueCore \<Rightarrow> ('c, 'w) Listener \<Rightarrow> 'k CoValueCore \<times> 'u"
  shows "snd (subscribe coreSubscribe that listener)
        = snd (coreSubscribe (RawUnknownCoValue.core that) listener)
    \<and> RawUnknownCoValue.core (fst (subscribe coreSubscribe that listener))
        = fst (coreSubscribe (RawUnknownCoValue.core that) listener)
    \<and> notifyListeners (RawUnknownCoValue.core (fst (subscribe CoValueCore_subscribe this listener))) content w
        = listener content (notifyListeners (RawUnknownCoValue.core this) content w)
    \<and> (nextListener (RawUnknownCoValue.core this) \<notin> fst ` set (listeners (RawUnknownCoValue.core this)) \<longrightarrow>
         notifyListeners
           (snd (subscribe CoValueCore_subscribe this listener)
              (RawUnknownCoValue.core (fst (subscribe CoValueCore_subscribe this listener))))
           content w
           = notifyListeners (RawUnknownCoValue.core this) content w)"
proof -
  have f: "filter (\<lambda>r. fst r \<noteq> n) rs = rs"
    if "n \<notin> fst ` set rs" for n and rs :: "(nat \<times> ('c, 'w) Listener) list"
    using that by (induction rs) auto
  show ?thesis
    by (auto simp: subscribe_def Let_def CoValueCore_subscribe_def notifyListeners_def
        removeListener_def f)
qed

theorem subscribe_registers_witness:
  "notifyListeners
     (RawUnknownCoValue.core
        (fst (subscribe CoValueCore_subscribe (new_RawUnknownCoValue unknownCore) (\<lambda>c log. log @ [c]))))
     ''v1'' [] = [''v1'']
   \<and> notifyListeners
       (snd (subscribe CoValueCore_subscribe (new_RawUnknownCoValue unknownCore) (\<lambda>c log. log @ [c]))
          (RawUnknownCoValue.core
             (fst (subscribe CoValueCore_subscribe (new_RawUnknownCoValue unknownCore) (\<lambda>c log. log @ [c])))))
       ''v2'' [] = []"
proof -
  let ?h = "new_RawUnknownCoValue unknownCore :: (string, string list) Listener RawUnknownCoValue"
  let ?l = "\<lambda>(c :: string) log. log @ [c]"
  let ?s = "subscribe CoValueCore_subscribe ?h ?l"
  have fresh: "nextListener (RawUnknownCoValue.core ?h) \<notin> fst ` set (listeners (RawUnknownCoValue.core ?h))"
    by (simp add: new_RawUnknownCoValue_def unknownCore_def)
  have none: "notifyListeners (RawUnknownCoValue.core ?h) content [] = []" for content
    by (simp add: new_RawUnknownCoValue_def unknownCore_def notifyListeners_def)
  have a: "notifyListeners (RawUnknownCoValue.core (fst ?s)) ''v1'' []
      = ?l ''v1'' (notifyListeners (RawUnknownCoValue.core ?h) ''v1'' [])"
    using subscribe_registers [of CoValueCore_subscribe ?h ?l ?h "''v1''" "[]"] by blast
  have b: "notifyListeners (snd ?s (RawUnknownCoValue.core (fst ?s))) ''v2'' []
      = notifyListeners (RawUnknownCoValue.core ?h) ''v2'' []"
    using subscribe_registers [of CoValueCore_subscribe ?h ?l ?h "''v2''" "[]"] fresh by blast
  show ?thesis
    unfolding a b none by simp
qed

section \<open>The point-in-time view of the unknown CoValue\<close>




section \<open>Chain integrity of a session log\<close>

lemma rederive_length: "length (rederive P h txs) = length txs"
  by (induction txs arbitrary: h) auto

lemma rederive_Nil_iff: "rederive P h txs = [] \<longleftrightarrow> txs = []"
  by (cases txs) auto

lemma rederive_snoc:
  "rederive P h (txs @ [tx]) =
     rederive P h txs @ [chainHash P (if txs = [] then h else last (rederive P h txs)) tx]"
  by (induction txs arbitrary: h) (auto simp: rederive_Nil_iff)

lemma rederive_nth:
  "i < length txs \<Longrightarrow>
     rederive P h txs ! i = chainHash P (if i = 0 then h else rederive P h txs ! (i - 1)) (txs ! i)"
proof (induction txs arbitrary: h i)
  case Nil
  then show ?case by simp
next
  case (Cons tx txs)
  show ?case
  proof (cases i)
    case 0
    then show ?thesis by simp
  next
    case (Suc j)
    with Cons.prems have j: "j < length txs" by simp
    show ?thesis using Cons.IH [OF j, of "chainHash P h tx"] Suc by (cases j) auto
  qed
qed

lemma rederive_unique:
  "length hs = length txs \<Longrightarrow>
   (\<forall>i < length txs. hs ! i = chainHash P (if i = 0 then h else hs ! (i - 1)) (txs ! i)) \<Longrightarrow>
   hs = rederive P h txs"
proof (induction txs arbitrary: h hs)
  case Nil
  then show ?case by simp
next
  case (Cons tx txs)
  then obtain g gs where hs: "hs = g # gs" by (cases hs) auto
  from Cons.prems(2) hs have g: "g = chainHash P h tx" by auto
  have len: "length gs = length txs" using Cons.prems(1) hs by simp
  have step: "\<forall>i < length txs. gs ! i = chainHash P (if i = 0 then g else gs ! (i - 1)) (txs ! i)"
  proof (intro allI impI)
    fix i assume i: "i < length txs"
    from Cons.prems(2) hs i have "hs ! Suc i = chainHash P (hs ! i) ((tx # txs) ! Suc i)"
    proof -
      have "Suc i < length (tx # txs)" using i by simp
      with Cons.prems(2) have "hs ! Suc i = chainHash P (if Suc i = 0 then h else hs ! (Suc i - 1)) ((tx # txs) ! Suc i)"
        by blast
      then show ?thesis by simp
    qed
    then show "gs ! i = chainHash P (if i = 0 then g else gs ! (i - 1)) (txs ! i)"
      using hs by (cases i) auto
  qed
  from Cons.IH [OF len step] g hs show ?case by simp
qed

lemma chainIntegrity_iff_verify:
  "chainIntegrity P sid log \<longleftrightarrow> SessionLog_verify P sid log"
proof -
  have "hashes log = rederive P initialHash (transactions log) \<longleftrightarrow>
        (length (hashes log) = length (transactions log) \<and>
         (\<forall>i < length (transactions log).
            hashes log ! i = chainHash P (if i = 0 then initialHash else hashes log ! (i - 1)) (transactions log ! i)))"
    (is "?L \<longleftrightarrow> ?R")
  proof
    assume ?L
    then show ?R using rederive_length [of P initialHash "transactions log"]
        rederive_nth [of _ "transactions log" P initialHash] by simp
  next
    assume ?R
    then show ?L using rederive_unique by blast
  qed
  then show ?thesis
    by (auto simp: chainIntegrity_def SessionLog_verify_def list_all_iff chainHash_def)
qed

lemma verify_append:
  assumes "SessionLog_verify P sid log" and "SessionLog_append P sid log tx s = Inr log'"
  shows "SessionLog_verify P sid log'"
proof -
  let ?h = "chainHash P (lastHash log) tx"
  from assms(2) have v: "verify P (signerOf P sid) ?h s"
    and log': "log' = \<lparr> transactions = transactions log @ [tx],
                        hashes = hashes log @ [?h],
                        lastSignature = Some s \<rparr>"
    by (auto simp: SessionLog_append_def Let_def split: if_splits)
  from assms(1) have h: "hashes log = rederive P initialHash (transactions log)"
    by (simp add: SessionLog_verify_def)
  have "lastHash log = (if transactions log = [] then initialHash else last (rederive P initialHash (transactions log)))"
    using h by (simp add: lastHash_def rederive_Nil_iff)
  then have eq: "hashes log' = rederive P initialHash (transactions log')"
    using h log' by (simp add: rederive_snoc)
  have "lastHash log' = ?h" using log' by (simp add: lastHash_def)
  with v eq log' show ?thesis by (simp add: SessionLog_verify_def)
qed

lemma verify_appendAll:
  "SessionLog_verify P sid log \<Longrightarrow> appendAll P sid log steps = Inr log' \<Longrightarrow> SessionLog_verify P sid log'"
proof (induction steps arbitrary: log)
  case Nil
  then show ?case by simp
next
  case (Cons a as)
  then show ?case by (auto split: sum.splits dest: verify_append)
qed


lemma appendAll_transactions:
  "appendAll P sid log steps = Inr log' \<Longrightarrow> transactions log' = transactions log @ map fst steps"
proof (induction steps arbitrary: log)
  case Nil
  then show ?case by simp
next
  case (Cons a as)
  then show ?case
    by (auto simp: SessionLog_append_def Let_def split: sum.splits if_splits)
qed

text \<open>
  Claim C6. In every session log the running chain hash satisfies
  \<open>h_i = H(h_{i-1} || canonical(tx_i))\<close>, and the latest trailing signature verifies,
  under the signing key of the account that owns the session, over the final chain hash
  \<open>h_n\<close>. The invariant holds for the empty log, is preserved by every successful
  append (an append succeeds exactly when its signature verifies over the hash after
  the append, and is refused with a signature error otherwise), holds for every log
  built by appends, and is what \<open>verify()\<close> checks.
\<close>

theorem chain_integrity:
  "chainIntegrity P sid emptyLog
   \<and> (chainIntegrity P sid log \<and> SessionLog_append P sid log tx s = Inr log' \<longrightarrow>
        chainIntegrity P sid log' \<and> transactions log' = transactions log @ [tx]
        \<and> lastHash log' = hash P (lastHash log @ canonical P tx)
        \<and> lastSignature log' = Some s \<and> verify P (signerOf P sid) (lastHash log') s)
   \<and> (\<not> verify P (signerOf P sid) (hash P (lastHash log @ canonical P tx)) s \<longrightarrow>
        SessionLog_append P sid log tx s = Inl SignatureError)
   \<and> (verify P (signerOf P sid) (hash P (lastHash log @ canonical P tx)) s \<longrightarrow>
        (\<exists>log'. SessionLog_append P sid log tx s = Inr log'))
   \<and> (appendAll P sid emptyLog steps = Inr log \<longrightarrow>
        chainIntegrity P sid log \<and> transactions log = map fst steps)
   \<and> (SessionLog_verify P sid log \<longleftrightarrow> chainIntegrity P sid log)
   \<and> (chainIntegrity P sid log \<longrightarrow>
        (\<forall>i < length (transactions log).
           hashes log ! i =
             hash P ((if i = 0 then initialHash else hashes log ! (i - 1)) @ canonical P (transactions log ! i)))
        \<and> (transactions log \<noteq> [] \<longrightarrow>
             (\<exists>g. lastSignature log = Some g \<and> verify P (signerOf P sid) (last (hashes log)) g)))"
proof (intro conjI impI)
  show e: "chainIntegrity P sid emptyLog"
    by (simp add: chainIntegrity_def emptyLog_def)
  show "SessionLog_verify P sid log \<longleftrightarrow> chainIntegrity P sid log"
    by (simp add: chainIntegrity_iff_verify)
  {
    assume a: "chainIntegrity P sid log \<and> SessionLog_append P sid log tx s = Inr log'"
    then show "chainIntegrity P sid log'"
      using verify_append [of P sid log tx s log'] by (simp add: chainIntegrity_iff_verify)
    from a have log': "log' = \<lparr> transactions = transactions log @ [tx],
                        hashes = hashes log @ [chainHash P (lastHash log) tx],
                        lastSignature = Some s \<rparr>"
      and v: "verify P (signerOf P sid) (chainHash P (lastHash log) tx) s"
      by (auto simp: SessionLog_append_def Let_def split: if_splits)
    show "transactions log' = transactions log @ [tx]" using log' by simp
    show h: "lastHash log' = hash P (lastHash log @ canonical P tx)"
      using log' by (simp add: lastHash_def chainHash_def)
    show "lastSignature log' = Some s" using log' by simp
    show "verify P (signerOf P sid) (lastHash log') s" using v h by (simp add: chainHash_def)
  }
  {
    assume "\<not> verify P (signerOf P sid) (hash P (lastHash log @ canonical P tx)) s"
    then show "SessionLog_append P sid log tx s = Inl SignatureError"
      by (simp add: SessionLog_append_def Let_def chainHash_def)
  }
  {
    assume "verify P (signerOf P sid) (hash P (lastHash log @ canonical P tx)) s"
    then show "\<exists>log'. SessionLog_append P sid log tx s = Inr log'"
      by (simp add: SessionLog_append_def Let_def chainHash_def)
  }
  {
    assume a: "appendAll P sid emptyLog steps = Inr log"
    show "chainIntegrity P sid log"
      using verify_appendAll [OF _ a] e by (simp add: chainIntegrity_iff_verify)
    show "transactions log = map fst steps"
      using appendAll_transactions [OF a] by (simp add: emptyLog_def)
  }
  {
    assume c: "chainIntegrity P sid log"
    then show "\<forall>i < length (transactions log).
           hashes log ! i =
             hash P ((if i = 0 then initialHash else hashes log ! (i - 1)) @ canonical P (transactions log ! i))"
      by (simp add: chainIntegrity_def list_all_iff)
    assume n: "transactions log \<noteq> []"
    with c have "hashes log \<noteq> []" by (auto simp: chainIntegrity_def)
    with c n show "\<exists>g. lastSignature log = Some g \<and> verify P (signerOf P sid) (last (hashes log)) g"
      by (cases "lastSignature log") (auto simp: chainIntegrity_def lastHash_def)
  }
qed

theorem chain_integrity_witness:
  "SessionLog_append toyProvider ''co_zA_session_z1'' emptyLog tx1 [2, 2, 12] = Inr signedLog
   \<and> chainIntegrity toyProvider ''co_zA_session_z1'' signedLog
   \<and> SessionLog_verify toyProvider ''co_zA_session_z1'' signedLog
   \<and> verify toyProvider (signerOf toyProvider ''co_zA_session_z1'') (lastHash signedLog) [2, 2, 12]
   \<and> SessionLog_append toyProvider ''co_zA_session_z1'' emptyLog tx1 [0] = Inl SignatureError"
proof -
  have a: "SessionLog_append toyProvider ''co_zA_session_z1'' emptyLog tx1 [2, 2, 12] = Inr signedLog"
    by (simp add: SessionLog_append_def toyProvider_def emptyLog_def tx1_def signedLog_def
        chainHash_def lastHash_def initialHash_def Let_def)
  have b: "\<not> verify toyProvider (signerOf toyProvider ''co_zA_session_z1'')
              (hash toyProvider (lastHash emptyLog @ canonical toyProvider tx1)) [0]"
    by (simp add: toyProvider_def)
  note t = chain_integrity [of toyProvider "''co_zA_session_z1''" emptyLog tx1 "[2, 2, 12]" signedLog]
  have c: "chainIntegrity toyProvider ''co_zA_session_z1'' signedLog"
    and d: "verify toyProvider (signerOf toyProvider ''co_zA_session_z1'') (lastHash signedLog) [2, 2, 12]"
    using t a by blast+
  have e: "SessionLog_verify toyProvider ''co_zA_session_z1'' signedLog"
    using chain_integrity [of toyProvider "''co_zA_session_z1''" signedLog] c by blast
  have f: "SessionLog_append toyProvider ''co_zA_session_z1'' emptyLog tx1 [0] = Inl SignatureError"
    using chain_integrity [of toyProvider "''co_zA_session_z1''" emptyLog tx1 "[0]"] b by blast
  show ?thesis using a c d e f by simp
qed

section \<open>The causal order\<close>


lemma causalKey_less:
  "causalKey t' < causalKey t \<longleftrightarrow>
     madeAt (snd t') < madeAt (snd t)
     \<or> (madeAt (snd t') = madeAt (snd t)
         \<and> (fst (fst t') < fst (fst t)
             \<or> (fst (fst t') = fst (fst t) \<and> snd (fst t') < snd (fst t))))"
proof -
  obtain s i x where t: "t = ((s, i), x)" by (metis prod.collapse)
  obtain s' i' x' where t': "t' = ((s', i'), x')" by (metis prod.collapse)
  show ?thesis
    unfolding t t' causalKey_def by auto
qed

lemma causalKey_inj:
  assumes "distinct (map fst txs)"
  shows "inj_on causalKey (set txs)"
proof (rule inj_onI)
  fix t t' assume t: "t \<in> set txs" and t': "t' \<in> set txs" and k: "causalKey t = causalKey t'"
  from k have "fst t = fst t'" by (simp add: causalKey_def prod_eq_iff)
  moreover from assms have "inj_on fst (set txs)" by (simp add: distinct_map)
  ultimately show "t = t'" using t t' by (auto dest: inj_onD)
qed

lemma distinct_stamped: "distinct (map fst txs) \<Longrightarrow> distinct txs"
  by (simp add: distinct_map)


lemma causalOrder_facts:
  "set (causalOrder txs) = set txs" "sorted (map causalKey (causalOrder txs))"
  "distinct (map fst txs) \<Longrightarrow> distinct (map fst (causalOrder txs))"
proof -
  show "set (causalOrder txs) = set txs" "sorted (map causalKey (causalOrder txs))"
    by (simp_all add: causalOrder_def)
  assume "distinct (map fst txs)"
  moreover have "mset (map fst (causalOrder txs)) = mset (map fst txs)"
    by (simp add: causalOrder_def)
  ultimately show "distinct (map fst (causalOrder txs))"
    by (metis mset_eq_imp_distinct_iff)
qed

text \<open>In the causal order of transactions with distinct identifiers, what comes after a
  transaction has a strictly greater key.\<close>

lemma causalOrder_split:
  assumes d: "distinct (map fst txs)" and s: "causalOrder txs = as @ t # bs"
  shows "\<forall>b \<in> set bs. causalKey t < causalKey b" and "\<forall>a \<in> set as. causalKey a < causalKey t"
proof -
  have sorted: "sorted (map causalKey (as @ t # bs))"
    using causalOrder_facts(2) [of txs] s by simp
  have dist: "distinct (map fst (as @ t # bs))"
    using causalOrder_facts(3) [OF d] s by simp
  have inj: "causalKey x = causalKey t \<Longrightarrow> x = t" if "x \<in> set (as @ t # bs)" for x
  proof -
    assume k: "causalKey x = causalKey t"
    have m: "t \<in> set (as @ t # bs)" by simp
    from causalKey_inj [OF dist] k that m show "x = t" by (rule inj_onD)
  qed
  have dl: "distinct (as @ t # bs)" using dist by (rule distinct_stamped)
  show "\<forall>b \<in> set bs. causalKey t < causalKey b"
  proof
    fix b assume b: "b \<in> set bs"
    with sorted have le: "causalKey t \<le> causalKey b" by (auto simp: sorted_append)
    from b dl have "b \<noteq> t" by auto
    with inj [of b] b have "causalKey b \<noteq> causalKey t" by auto
    with le show "causalKey t < causalKey b" by simp
  qed
  show "\<forall>a \<in> set as. causalKey a < causalKey t"
  proof
    fix a assume a: "a \<in> set as"
    with sorted have le: "causalKey a \<le> causalKey t" by (auto simp: sorted_append)
    from a dl have "a \<noteq> t" by auto
    with inj [of a] a have "causalKey a \<noteq> causalKey t" by auto
    with le show "causalKey a < causalKey t" by simp
  qed
qed

section \<open>CoMap: the last writer wins\<close>

lemma applyMapChange_other: "writtenKey c \<noteq> Some k \<Longrightarrow> applyMapChange m c k = m k"
  by (cases c) auto

lemma applyMapChange_written: "writtenKey c = Some k \<Longrightarrow> applyMapChange m c k = writtenValue c"
  by (cases c) auto

lemma changes_other:
  "\<forall>c \<in> set cs. writtenKey c \<noteq> Some k \<Longrightarrow> foldl applyMapChange m cs k = m k"
  by (induction cs arbitrary: m) (auto simp: applyMapChange_other)

lemma applyMapTx_other: "\<not> writesKey k t \<Longrightarrow> applyMapTx m t k = m k"
  by (simp add: applyMapTx_def writesKey_def list_ex_iff changes_other)

lemma txs_other:
  "\<forall>t \<in> set ts. \<not> writesKey k t \<Longrightarrow> foldl applyMapTx m ts k = m k"
  by (induction ts arbitrary: m) (auto simp: applyMapTx_other)

lemma applyMapTx_last:
  assumes "changes (snd t) = before @ c # after" and "writtenKey c = Some k"
    and "\<forall>c' \<in> set after. writtenKey c' \<noteq> Some k"
  shows "applyMapTx m t k = writtenValue c"
  using assms by (simp add: applyMapTx_def changes_other applyMapChange_written)

text \<open>
  Claim C4. Reading a key of a CoMap returns the value written by the change to that key
  that is greatest in the lexicographic order of \<open>(madeAt, sessionID, indexInSession)\<close>
  among the validated changes to the key (within one transaction, the last change to
  the key): when two writes carry the same \<open>madeAt\<close>, the one of the greater session
  wins. The result does not depend on the order in which the transactions arrived, so
  all replicas agree on the winner. A deleted key reads as absent.
\<close>

theorem coMap_last_writer_wins:
  assumes "distinct (map fst txs)"
    and "t \<in> set txs"
    and "changes (snd t) = before @ c # after"
    and "writtenKey c = Some k"
    and "\<forall>c' \<in> set after. writtenKey c' \<noteq> Some k"
    and "\<forall>t' \<in> set txs. t' \<noteq> t \<and> writesKey k t' \<longrightarrow>
           madeAt (snd t') < madeAt (snd t)
           \<or> (madeAt (snd t') = madeAt (snd t)
               \<and> (fst (fst t') < fst (fst t)
                   \<or> (fst (fst t') = fst (fst t) \<and> snd (fst t') < snd (fst t))))"
  shows "coMapView txs k = writtenValue c"
proof -
  from assms(2) have "t \<in> set (causalOrder txs)" by (simp add: causalOrder_facts)
  then obtain as bs where s: "causalOrder txs = as @ t # bs" by (auto dest: split_list)
  have later: "\<forall>b \<in> set bs. \<not> writesKey k b"
  proof
    fix b assume b: "b \<in> set bs"
    with causalOrder_split(1) [OF assms(1) s] have gt: "causalKey t < causalKey b" by simp
    from b s have bt: "b \<in> set txs" using causalOrder_facts(1) [of txs] by auto
    show "\<not> writesKey k b"
    proof
      assume w: "writesKey k b"
      from gt have "b \<noteq> t" by auto
      with assms(6) bt w have "causalKey b < causalKey t" by (simp add: causalKey_less)
      with gt show False by simp
    qed
  qed
  have "coMapView txs k = foldl applyMapTx (applyMapTx (foldl applyMapTx Map.empty as) t) bs k"
    by (simp add: coMapView_def s)
  also have "\<dots> = applyMapTx (foldl applyMapTx Map.empty as) t k"
    using later by (rule txs_other)
  also have "\<dots> = writtenValue c"
    using assms(3,4,5) by (rule applyMapTx_last)
  finally show ?thesis .
qed

theorem coMap_last_writer_wins_witness:
  "coMapView [setX, setY] ''k'' = Some (JString ''y'') \<and> coMapView [setY, setX] ''k'' = Some (JString ''y'')"
proof -
  have a: "coMapView [setX, setY] ''k'' = writtenValue (MapSet ''k'' (JString ''y''))"
    by (rule coMap_last_writer_wins [where t = setY and before = "[]" and after = "[]"])
       (simp_all add: setX_def setY_def writesKey_def)
  have b: "coMapView [setY, setX] ''k'' = writtenValue (MapSet ''k'' (JString ''y''))"
    by (rule coMap_last_writer_wins [where t = setY and before = "[]" and after = "[]"])
       (simp_all add: setX_def setY_def writesKey_def)
  show ?thesis using a b by simp
qed

section \<open>Convergence\<close>




















section \<open>Idempotent ingest\<close>

lemma extendChain_transactions:
  "transactions (extendChain P log txs) = transactions log @ txs"
  by (induction txs arbitrary: log) auto

lemma ingestSession_Inr:
  assumes "ingestSession P sid nc log = Inr log'"
  shows "afterIndex nc = length (transactions log)"
    and "transactions log' = transactions log @ newTransactions nc"
    and "newTransactions nc = [] \<Longrightarrow> log' = log\<lparr> lastSignature := Some (newSignature nc) \<rparr>"
  using assms
  by (auto simp: ingestSession_def Let_def extendChain_transactions split: if_splits)

lemma sessionLog_setSession:
  "sessionLog (setSession sid log c) sid' = (if sid' = sid then log else sessionLog c sid')"
  by (simp add: sessionLog_def setSession_def DAList.lookup_update)

lemma update_same: "DAList.lookup xs k = Some v \<Longrightarrow> DAList.update k v xs = xs"
  by transfer (simp add: update_triv)

lemma setSession_same:
  "DAList.lookup (sessions c) sid = Some log \<Longrightarrow> setSession sid log c = c"
  by (simp add: setSession_def update_same)

lemma ingestSessions_untouched:
  "ingestSessions P new c = Inr c' \<Longrightarrow> sid \<notin> fst ` set new \<Longrightarrow>
     DAList.lookup (sessions c') sid = DAList.lookup (sessions c) sid"
proof (induction new arbitrary: c)
  case Nil
  then show ?case by simp
next
  case (Cons e rest)
  from Cons.prems(1) obtain log where
    l: "ingestSession P (fst e) (snd e) (sessionLog c (fst e)) = Inr log"
    and r: "ingestSessions P rest (setSession (fst e) log c) = Inr c'"
    by (auto split: sum.splits)
  from Cons.prems(2) have "sid \<noteq> fst e" "sid \<notin> fst ` set rest" by auto
  with Cons.IH [OF r] show ?case by (simp add: setSession_def DAList.lookup_update)
qed

lemma ingestSessions_fixed:
  "ingestSessions P new c = Inr c' \<Longrightarrow>
     CoValueCore.id c' = CoValueCore.id c \<and> header c' = header c
     \<and> listeners c' = listeners c \<and> nextListener c' = nextListener c"
proof (induction new arbitrary: c)
  case Nil
  then show ?case by simp
next
  case (Cons e rest)
  from Cons.prems obtain log where
    r: "ingestSessions P rest (setSession (fst e) log c) = Inr c'"
    by (auto split: sum.splits)
  from Cons.IH [OF r] show ?case by (simp add: setSession_def)
qed

text \<open>After a committed batch every session of the message is in the core, with the log
  that the ingest of its entry produced.\<close>

lemma ingestSessions_logs:
  "ingestSessions P new c = Inr c' \<Longrightarrow> distinct (map fst new) \<Longrightarrow> e \<in> set new \<Longrightarrow>
     ingestSession P (fst e) (snd e) (sessionLog c (fst e)) = Inr (sessionLog c' (fst e))
     \<and> DAList.lookup (sessions c') (fst e) = Some (sessionLog c' (fst e))"
proof (induction new arbitrary: c)
  case Nil
  then show ?case by simp
next
  case (Cons x rest)
  from Cons.prems(1) obtain log where
    l: "ingestSession P (fst x) (snd x) (sessionLog c (fst x)) = Inr log"
    and r: "ingestSessions P rest (setSession (fst x) log c) = Inr c'"
    by (auto split: sum.splits)
  from Cons.prems(2) have d: "distinct (map fst rest)" and nx: "fst x \<notin> fst ` set rest" by auto
  show ?case
  proof (cases "e = x")
    case True
    have "DAList.lookup (sessions c') (fst x)
        = DAList.lookup (sessions (setSession (fst x) log c)) (fst x)"
      using ingestSessions_untouched [OF r nx] .
    then have m: "DAList.lookup (sessions c') (fst x) = Some log"
      by (simp add: setSession_def)
    then have "sessionLog c' (fst x) = log" by (simp add: sessionLog_def)
    with l m True show ?thesis by simp
  next
    case False
    with Cons.prems(3) have e: "e \<in> set rest" by simp
    with nx have "fst e \<noteq> fst x" by (metis image_eqI)
    with Cons.IH [OF r d e] show ?thesis by (simp add: sessionLog_setSession)
  qed
qed

text \<open>A batch whose every entry is either refused or changes nothing is refused or
  changes nothing.\<close>

lemma ingestSessions_stay:
  assumes "\<And>e log. e \<in> set new \<Longrightarrow>
             ingestSession P (fst e) (snd e) (sessionLog c (fst e)) = Inr log \<Longrightarrow>
             DAList.lookup (sessions c) (fst e) = Some log"
  shows "ingestSessions P new c = Inr c \<or> (\<exists>err. ingestSessions P new c = Inl err)"
  using assms
proof (induction new)
  case Nil
  show ?case by simp
next
  case (Cons x rest)
  show ?case
  proof (cases "ingestSession P (fst x) (snd x) (sessionLog c (fst x))")
    case (Inl err)
    then show ?thesis by simp
  next
    case (Inr log)
    with Cons.prems [of x log] have "setSession (fst x) log c = c"
      by (simp add: setSession_same)
    with Inr Cons.IH Cons.prems show ?thesis by simp
  qed
qed

lemma ingestSessions_again:
  assumes "ingestSessions P new c = Inr c'" and "distinct (map fst new)"
  shows "ingestSessions P new c' = Inr c' \<or> (\<exists>err. ingestSessions P new c' = Inl err)"
proof (rule ingestSessions_stay)
  fix e log
  assume e: "e \<in> set new"
    and again: "ingestSession P (fst e) (snd e) (sessionLog c' (fst e)) = Inr log"
  from ingestSessions_logs [OF assms e] have
    first: "ingestSession P (fst e) (snd e) (sessionLog c (fst e)) = Inr (sessionLog c' (fst e))"
    and m: "DAList.lookup (sessions c') (fst e) = Some (sessionLog c' (fst e))"
    by simp_all
  from ingestSession_Inr(1,2) [OF first] ingestSession_Inr(1) [OF again]
  have none: "newTransactions (snd e) = []" by simp
  from ingestSession_Inr(3) [OF first none] ingestSession_Inr(3) [OF again none]
  have "log = sessionLog c' (fst e)" by simp
  with m show "DAList.lookup (sessions c') (fst e) = Some log" by simp
qed

lemma ingestContent_again:
  assumes "ingestContent P cid hdr new node = Inr node'"
  shows "ingestContent P cid hdr new node' = Inr node'
    \<or> (\<exists>err. ingestContent P cid hdr new node' = Inl err)"
proof -
  from assms obtain c c' where
    i: "ingestSessions P (DAList.impl_of new) c = Inr c'"
    and n: "node' = node\<lparr> coValues := DAList.update cid c' (coValues node) \<rparr>"
    by (auto simp: ingestContent_def split: option.splits if_splits sum.splits)
  have look: "DAList.lookup (coValues node') cid = Some c'" by (simp add: n)
  have d: "distinct (map fst (DAList.impl_of new))" by simp
  show ?thesis
  proof (cases "groupMissing node' c'")
    case True
    then show ?thesis by (simp add: ingestContent_def look)
  next
    case False
    from ingestSessions_again [OF i d] show ?thesis
    proof
      assume "ingestSessions P (DAList.impl_of new) c' = Inr c'"
      moreover have "node'\<lparr> coValues := DAList.update cid c' (coValues node') \<rparr> = node'"
        by (simp add: n)
      ultimately show ?thesis using False by (simp add: ingestContent_def look)
    next
      assume "\<exists>err. ingestSessions P (DAList.impl_of new) c' = Inl err"
      then show ?thesis using False by (auto simp: ingestContent_def look)
    qed
  qed
qed

lemma applyMessage_again:
  "applyMessage P m (applyMessage P m node) = applyMessage P m node"
proof (cases m)
  case (CONTENT cid hdr new)
  show ?thesis
  proof (cases "ingestContent P cid hdr new node")
    case (Inl err)
    then show ?thesis using CONTENT by simp
  next
    case (Inr node')
    from ingestContent_again [OF Inr] show ?thesis using CONTENT Inr by auto
  qed
qed simp_all

text \<open>
  Claim C7. Ingest is idempotent: for every node state and every inbound sync message,
  applying the message twice in succession yields the same node state as applying it
  once; the session logs, the materialized view and the known state of every CoValue
  are those after the first application.
\<close>

theorem ingest_idempotent:
  "applyMessage P m (applyMessage P m node) = applyMessage P m node
    \<and> sessionsOf (applyMessage P m (applyMessage P m node)) cid
        = sessionsOf (applyMessage P m node) cid
    \<and> viewOf permits (applyMessage P m (applyMessage P m node)) cid
        = viewOf permits (applyMessage P m node) cid
    \<and> knownStateOf (applyMessage P m (applyMessage P m node)) cid
        = knownStateOf (applyMessage P m node) cid"
  by (simp only: applyMessage_again [of P m node] simp_thms)

theorem ingest_idempotent_witness:
  "applyMessage toyProvider contentMessage (applyMessage toyProvider contentMessage emptyNode)
     = applyMessage toyProvider contentMessage emptyNode
   \<and> knownStateOf (applyMessage toyProvider contentMessage (applyMessage toyProvider contentMessage emptyNode)) ''co_zMap''
     = Some [(''co_zA_session_z1'', 1, Some [2, 2, 12])]
   \<and> knownStateOf emptyNode ''co_zMap'' = None"
proof -
  have once: "knownStateOf (applyMessage toyProvider contentMessage emptyNode) ''co_zMap''
      = Some [(''co_zA_session_z1'', 1, Some [2, 2, 12])]"
    by (simp add: contentMessage_def emptyNode_def ingestContent_def newCore_def mapHeader_def
        groupMissing_def sessionLog_def emptyLog_def ingestSession_def Let_def lastHash_def
        chainHash_def toyProvider_def initialHash_def tx1_def setSession_def knownStateOf_def
        knownState_def DAList.update.rep_eq DAList.empty.rep_eq)
  have none: "knownStateOf emptyNode ''co_zMap'' = None"
    by (simp add: knownStateOf_def emptyNode_def)
  from ingest_idempotent [of toyProvider contentMessage emptyNode "''co_zMap''"] once none
  show ?thesis by simp
qed

section \<open>CoList: the newer insertion at an anchor comes first\<close>

subsection \<open>Placing insertions keeps the order of the slots\<close>

lemma insertAfter_subseq: "subseq es (insertAfter a run es)"
  by (induction es) (auto intro: list_emb_append2)

lemma insertBefore_subseq: "subseq es (insertBefore b run es)"
  by (induction es) (auto intro: list_emb_append2)

lemma land_subseq: "subseq es (land es i)"
  by (cases i) (simp_all add: insertAfter_subseq insertBefore_subseq)

lemma lands_subseq: "subseq es (foldl land es is)"
proof (induction "is" arbitrary: es)
  case Nil
  show ?case by simp
next
  case (Cons i "is")
  from land_subseq [of es i] Cons [of "land es i"]
  show ?case by (auto intro: subseq_order.trans)
qed

lemma settle_done: "filter (anchored es) waiting = [] \<Longrightarrow> settle es waiting = es"
  by (subst settle.simps) simp

lemma settle_step:
  "filter (anchored es) waiting \<noteq> [] \<Longrightarrow>
     settle es waiting
       = settle (foldl land es (filter (anchored es) waiting))
           (filter (\<lambda>i. \<not> anchored es i) waiting)"
  by (subst settle.simps) simp

lemma settle_subseq: "subseq es (settle es waiting)"
proof (induction es waiting rule: settle.induct)
  case (1 es waiting)
  show ?case
  proof (cases "filter (anchored es) waiting = []")
    case True
    then show ?thesis by (simp add: settle_done)
  next
    case False
    have "subseq es (foldl land es (filter (anchored es) waiting))" by (rule lands_subseq)
    from this 1 [OF False] show ?thesis
      unfolding settle_step [OF False] by (rule subseq_order.trans)
  qed
qed

lemma subseq_slots:
  assumes "subseq es es'" and "a \<in> fst ` set es"
  shows "a \<in> fst ` set es'"
proof -
  from assms(2) obtain c where c: "c \<in> set es" and "fst c = a" by (metis imageE)
  from assms(1) c have "c \<in> set es'" by (auto elim: list_emb_set)
  with \<open>fst c = a\<close> show ?thesis by (metis image_eqI)
qed

lemma sentinels_present:
  "AtStart \<in> fst ` set (coListEntries txs)" "AtEnd \<in> fst ` set (coListEntries txs)"
proof -
  have s: "subseq emptyList (coListEntries txs)"
    unfolding coListEntries_def by (rule settle_subseq)
  have "AtStart \<in> fst ` set emptyList" by (simp add: emptyList_def)
  with s show "AtStart \<in> fst ` set (coListEntries txs)" by (rule subseq_slots)
  have "AtEnd \<in> fst ` set emptyList" by (simp add: emptyList_def)
  with s show "AtEnd \<in> fst ` set (coListEntries txs)" by (rule subseq_slots)
qed

subsection \<open>What lies behind an anchor stays behind it\<close>

lemma set_tl_subset: "set (tl xs) \<subseteq> set xs"
  by (cases xs) auto

lemma behind_subset: "set (behind a es) \<subseteq> set es"
proof -
  have "set (tl (dropWhile (\<lambda>x. fst x \<noteq> a) es)) \<subseteq> set (dropWhile (\<lambda>x. fst x \<noteq> a) es)"
    by (rule set_tl_subset)
  also have "\<dots> \<subseteq> set es" by (auto dest: set_dropWhileD)
  finally show ?thesis by (simp add: behind_def)
qed

lemma behind_Cons: "behind a (x # es) = (if fst x = a then es else behind a es)"
  by (simp add: behind_def)

lemma behind_append: "set (behind a es) \<subseteq> set (behind a (run @ es))"
proof (induction run)
  case Nil
  show ?case by simp
next
  case (Cons y run)
  show ?case
  proof (cases "fst y = a")
    case True
    with behind_subset [of a es] show ?thesis by (auto simp: behind_Cons)
  next
    case False
    with Cons show ?thesis by (simp add: behind_Cons)
  qed
qed

lemma insertAfter_keeps: "set es \<subseteq> set (insertAfter b run es)"
  by (induction es) auto

lemma insertBefore_keeps: "set es \<subseteq> set (insertBefore b run es)"
  by (induction es) auto

lemma insertAfter_behind: "set (behind a es) \<subseteq> set (behind a (insertAfter b run es))"
proof (induction es)
  case Nil
  show ?case by simp
next
  case (Cons x es)
  show ?case
  proof (cases "fst x = b")
    case True
    with behind_append [of a es run] show ?thesis by (auto simp: behind_Cons)
  next
    case False
    with Cons insertAfter_keeps [of es b run] show ?thesis by (auto simp: behind_Cons)
  qed
qed

lemma insertBefore_behind: "set (behind a es) \<subseteq> set (behind a (insertBefore b run es))"
proof (induction es)
  case Nil
  show ?case by simp
next
  case (Cons x es)
  show ?case
  proof (cases "fst x = b")
    case True
    with behind_append [of a "x # es" run] show ?thesis by simp
  next
    case False
    with Cons insertBefore_keeps [of es b run] show ?thesis by (auto simp: behind_Cons)
  qed
qed

lemma land_behind: "set (behind a es) \<subseteq> set (behind a (land es i))"
  by (cases i) (simp_all add: insertAfter_behind insertBefore_behind)

lemma lands_behind: "set (behind a es) \<subseteq> set (behind a (foldl land es is))"
proof (induction "is" arbitrary: es)
  case Nil
  show ?case by simp
next
  case (Cons i "is")
  from land_behind [of a es i] Cons [of "land es i"]
  show ?case by auto
qed

text \<open>An insertion after an anchor that is in the list lands right behind it.\<close>

lemma insertAfter_lands:
  "a \<in> fst ` set es \<Longrightarrow> behind a (insertAfter a run es) = run @ behind a es"
  by (induction es) (auto simp: behind_Cons)

lemma behind_split:
  "a \<in> fst ` set es \<Longrightarrow> \<exists>us x. es = us @ x # behind a es"
proof -
  assume "a \<in> fst ` set es"
  then have "dropWhile (\<lambda>x. fst x \<noteq> a) es \<noteq> []" by (auto simp: dropWhile_eq_Nil_conv)
  then obtain x xs where d: "dropWhile (\<lambda>x. fst x \<noteq> a) es = x # xs"
    by (cases "dropWhile (\<lambda>x. fst x \<noteq> a) es") auto
  have "es = takeWhile (\<lambda>x. fst x \<noteq> a) es @ dropWhile (\<lambda>x. fst x \<noteq> a) es" by simp
  with d have "es = takeWhile (\<lambda>x. fst x \<noteq> a) es @ x # behind a es" by (simp add: behind_def)
  then show ?thesis by blast
qed

lemma subseq_pattern: "subseq [p, q] (us @ x # p # ys @ q # zs)"
proof -
  have "subseq [q] (ys @ q # zs)" by (simp add: subseq_singleton_left)
  then have "subseq [p, q] (p # ys @ q # zs)" by (rule subseq_Cons2)
  then have "subseq [p, q] (x # p # ys @ q # zs)" by (rule list_emb_Cons)
  then show ?thesis by (rule list_emb_append2)
qed

lemma subseq_pair:
  assumes "subseq [p, q] es"
  shows "\<exists>xs ys zs. es = xs @ p # ys @ q # zs"
proof -
  from assms obtain us vs where 1: "es = us @ p # vs" and 2: "subseq [q] vs"
    by (auto dest: list_emb_ConsD)
  from 2 obtain ys zs where "vs = ys @ q # zs" by (auto dest: list_emb_ConsD)
  with 1 show ?thesis by blast
qed

subsection \<open>Two insertions after the same anchor\<close>

text \<open>Of two insertions after the same anchor that wait in causal order, the later one
  is placed in the same round as the earlier one, after it and nearer to the anchor:
  in the round in which the anchor is in the list for the first time.\<close>

lemma round_newer_first:
  assumes a: "a \<in> fst ` set es"
    and w: "now = xs @ InsertAfter a [e2] # ys @ InsertAfter a [e1] # zs"
  shows "subseq [e1, e2] (foldl land es now)"
proof -
  define E1 where "E1 = foldl land es xs"
  define E2 where "E2 = insertAfter a [e2] E1"
  define E3 where "E3 = foldl land E2 ys"
  define E4 where "E4 = insertAfter a [e1] E3"
  have final: "foldl land es now = foldl land E4 zs"
    by (simp add: w E1_def E2_def E3_def E4_def)
  have a1: "a \<in> fst ` set E1"
    using lands_subseq [of es xs] a unfolding E1_def by (rule subseq_slots)
  have "behind a E2 = [e2] @ behind a E1"
    unfolding E2_def using a1 by (rule insertAfter_lands)
  then have b2: "e2 \<in> set (behind a E2)" by simp
  have b3: "e2 \<in> set (behind a E3)"
    using lands_behind [of a E2 ys] b2 by (auto simp: E3_def)
  have a3: "a \<in> fst ` set E3"
  proof -
    have "subseq E1 E2" unfolding E2_def by (rule insertAfter_subseq)
    moreover have "subseq E2 E3" unfolding E3_def by (rule lands_subseq)
    ultimately show ?thesis using a1 by (blast intro: subseq_slots)
  qed
  have b4: "behind a E4 = [e1] @ behind a E3"
    unfolding E4_def using a3 by (rule insertAfter_lands)
  have "subseq E3 E4" unfolding E4_def by (rule insertAfter_subseq)
  then have "a \<in> fst ` set E4" using a3 by (rule subseq_slots)
  from behind_split [OF this] obtain us x where "E4 = us @ x # behind a E4" by blast
  moreover from b3 obtain ys' zs' where "behind a E3 = ys' @ e2 # zs'"
    by (auto dest: split_list)
  ultimately have "E4 = us @ x # e1 # ys' @ e2 # zs'" using b4 by simp
  then have "subseq [e1, e2] E4" by (simp add: subseq_pattern)
  moreover have "subseq E4 (foldl land es now)" unfolding final by (rule lands_subseq)
  ultimately show ?thesis by (rule subseq_order.trans)
qed

lemma settle_newer_first:
  assumes "waiting = xs @ InsertAfter a [e2] # ys @ InsertAfter a [e1] # zs"
    and "a \<in> fst ` set (settle es waiting)"
  shows "subseq [e1, e2] (settle es waiting)"
  using assms
proof (induction es waiting arbitrary: xs ys zs rule: settle.induct)
  case (1 es waiting)
  let ?now = "filter (anchored es) waiting"
  let ?later = "filter (\<lambda>i. \<not> anchored es i) waiting"
  have ne: "?now \<noteq> []"
  proof (cases "a \<in> fst ` set es")
    case True
    then show ?thesis using "1.prems"(1) by (simp add: anchored_def)
  next
    case False
    show ?thesis
    proof
      assume "?now = []"
      then have "settle es waiting = es" by (rule settle_done)
      with "1.prems"(2) False show False by simp
    qed
  qed
  note step = settle_step [OF ne]
  show ?case
  proof (cases "a \<in> fst ` set es")
    case True
    have "?now = filter (anchored es) xs @ InsertAfter a [e2]
        # filter (anchored es) ys @ InsertAfter a [e1] # filter (anchored es) zs"
      using "1.prems"(1) True by (simp add: anchored_def)
    with True have "subseq [e1, e2] (foldl land es ?now)" by (rule round_newer_first)
    moreover have "subseq (foldl land es ?now) (settle (foldl land es ?now) ?later)"
      by (rule settle_subseq)
    ultimately show ?thesis unfolding step by (rule subseq_order.trans)
  next
    case False
    have later: "?later = filter (\<lambda>i. \<not> anchored es i) xs @ InsertAfter a [e2]
        # filter (\<lambda>i. \<not> anchored es i) ys @ InsertAfter a [e1] # filter (\<lambda>i. \<not> anchored es i) zs"
      using "1.prems"(1) False by (simp add: anchored_def)
    from "1.prems"(2) have "a \<in> fst ` set (settle (foldl land es ?now) ?later)"
      unfolding step .
    with "1.IH" [OF ne later] show ?thesis unfolding step .
  qed
qed

text \<open>The insertions of two transactions wait in the causal order of the
  transactions.\<close>

lemma insertion_of_change:
  assumes "ListApp a v \<in> set (changes (snd t))"
  shows "\<exists>p q. concat (map (listInsertion (fst t)) (changes (snd t)))
           = p @ InsertAfter a [(AtPos (fst t), v)] # q"
proof -
  from assms obtain cs cs' where "changes (snd t) = cs @ ListApp a v # cs'"
    by (auto dest: split_list)
  then have "concat (map (listInsertion (fst t)) (changes (snd t)))
      = concat (map (listInsertion (fst t)) cs) @ InsertAfter a [(AtPos (fst t), v)]
          # concat (map (listInsertion (fst t)) cs')"
    by simp
  then show ?thesis by blast
qed

lemma insertions_in_order:
  assumes s: "causalOrder txs = pre @ t2 # mid @ t1 # post"
    and c2: "ListApp a v2 \<in> set (changes (snd t2))"
    and c1: "ListApp a v1 \<in> set (changes (snd t1))"
  shows "\<exists>xs ys zs. insertionsOf listInsertion txs
           = xs @ InsertAfter a [(AtPos (fst t2), v2)] # ys @ InsertAfter a [(AtPos (fst t1), v1)] # zs"
proof -
  let ?f = "\<lambda>t. concat (map (listInsertion (fst t)) (changes (snd t)))"
  from insertion_of_change [OF c2] obtain p2 q2 where
    2: "?f t2 = p2 @ InsertAfter a [(AtPos (fst t2), v2)] # q2" by blast
  from insertion_of_change [OF c1] obtain p1 q1 where
    1: "?f t1 = p1 @ InsertAfter a [(AtPos (fst t1), v1)] # q1" by blast
  have "insertionsOf listInsertion txs
      = (concat (map ?f pre) @ p2) @ InsertAfter a [(AtPos (fst t2), v2)]
          # (q2 @ concat (map ?f mid) @ p1) @ InsertAfter a [(AtPos (fst t1), v1)]
          # (q1 @ concat (map ?f post))"
    by (simp add: insertionsOf_def s 1 2)
  then show ?thesis by blast
qed

text \<open>
  Claim C5. The elements inserted after an anchor appear in the iteration order in
  descending \<open>(madeAt, sessionID, indexInSession)\<close> order of their inserting
  transactions: of two insertions after the same anchor position of the list (\<open>start\<close>,
  \<open>end\<close>, or a position that is in the list, whenever and wherever in the causal order
  it was introduced), the element of the newer transaction comes first in the sequence
  of slots, whatever the order in which the transactions arrived, so every replica
  orders them alike; and when no transaction deletes either position, the newer element
  comes first in the iteration.
\<close>

theorem coList_newer_first:
  assumes d: "distinct (map fst txs)"
    and t1: "t1 \<in> set txs" and t2: "t2 \<in> set txs"
    and c1: "ListApp a v1 \<in> set (changes (snd t1))"
    and c2: "ListApp a v2 \<in> set (changes (snd t2))"
    and older: "madeAt (snd t2) < madeAt (snd t1)
           \<or> (madeAt (snd t2) = madeAt (snd t1)
               \<and> (fst (fst t2) < fst (fst t1)
                   \<or> (fst (fst t2) = fst (fst t1) \<and> snd (fst t2) < snd (fst t1))))"
    and position: "a = AtStart \<or> a = AtEnd \<or> a \<in> fst ` set (coListEntries txs)"
  shows "\<exists>xs ys zs.
           coListEntries txs = xs @ (AtPos (fst t1), v1) # ys @ (AtPos (fst t2), v2) # zs
           \<and> (\<not> tombstoned txs (fst t1) \<and> \<not> tombstoned txs (fst t2) \<longrightarrow>
                coListView txs = iteration txs xs @ v1 # iteration txs ys @ v2 # iteration txs zs)"
proof -
  from older have k: "causalKey t2 < causalKey t1" by (simp add: causalKey_less)
  from t2 have "t2 \<in> set (causalOrder txs)" by (simp add: causalOrder_facts)
  then obtain pre rest where s: "causalOrder txs = pre @ t2 # rest" by (auto dest: split_list)
  have "t1 \<notin> set pre" using causalOrder_split(2) [OF d s] k by auto
  moreover have "t1 \<noteq> t2" using k by auto
  moreover from t1 have "t1 \<in> set (causalOrder txs)" by (simp add: causalOrder_facts)
  ultimately have "t1 \<in> set rest" using s by auto
  then obtain mid post where r: "rest = mid @ t1 # post" by (auto dest: split_list)
  from s r have "causalOrder txs = pre @ t2 # mid @ t1 # post" by simp
  from insertions_in_order [OF this c2 c1] obtain is1 is2 is3 where
    w: "insertionsOf listInsertion txs
          = is1 @ InsertAfter a [(AtPos (fst t2), v2)] # is2 @ InsertAfter a [(AtPos (fst t1), v1)] # is3"
    by blast
  have "a \<in> fst ` set (coListEntries txs)"
    using position sentinels_present by blast
  then have "a \<in> fst ` set (settle emptyList (insertionsOf listInsertion txs))"
    by (simp add: coListEntries_def)
  with w have "subseq [(AtPos (fst t1), v1), (AtPos (fst t2), v2)]
      (settle emptyList (insertionsOf listInsertion txs))"
    by (rule settle_newer_first)
  then obtain xs ys zs where
    e: "coListEntries txs = xs @ (AtPos (fst t1), v1) # ys @ (AtPos (fst t2), v2) # zs"
    unfolding coListEntries_def by (blast dest: subseq_pair)
  have "\<not> tombstoned txs (fst t1) \<and> \<not> tombstoned txs (fst t2) \<longrightarrow>
      coListView txs = iteration txs xs @ v1 # iteration txs ys @ v2 # iteration txs zs"
    by (simp add: coListView_def e iteration_def visible_def)
  with e show ?thesis by blast
qed

lemmas list_eval = coListView_def coListEntries_def insertionsOf_def causalOrder_def causalKey_def
  emptyList_def iteration_def visible_def tombstoned_def anchored_def settle.simps
  insA_def insB_def insC_def insD_def lateA_def earlyC_def sameE_def laterD_def

theorem coList_newer_first_witness:
  "(\<exists>xs ys zs.
      coListEntries [earlyC, laterD, sameE, lateA]
        = xs @ (AtPos (fst laterD), JString ''d'') # ys @ (AtPos (fst earlyC), JString ''c'') # zs
      \<and> (\<not> tombstoned [earlyC, laterD, sameE, lateA] (fst laterD)
           \<and> \<not> tombstoned [earlyC, laterD, sameE, lateA] (fst earlyC) \<longrightarrow>
           coListView [earlyC, laterD, sameE, lateA]
             = iteration [earlyC, laterD, sameE, lateA] xs @ JString ''d''
                 # iteration [earlyC, laterD, sameE, lateA] ys @ JString ''c''
                 # iteration [earlyC, laterD, sameE, lateA] zs))
   \<and> coListView [earlyC, laterD, sameE, lateA] = [JString ''a'', JString ''d'', JString ''e'', JString ''c'']
   \<and> coListView [lateA, sameE, laterD, earlyC] = [JString ''a'', JString ''d'', JString ''e'', JString ''c'']
   \<and> coListView [insD, insC, insB, insA] = [JString ''a'', JString ''d'', JString ''c'', JString ''b'']
   \<and> coListView [insA, insB, insC, insD] = [JString ''a'', JString ''d'', JString ''c'', JString ''b'']"
proof -
  have 0: "coListEntries [earlyC, laterD, sameE, lateA]
      = [(AtStart, JNull), (AtPos (''co_zZ_session_z1'', 0), JString ''a''),
         (AtPos (''co_zY_session_z1'', 0), JString ''d''), (AtPos (''co_zX_session_z1'', 1), JString ''e''),
         (AtPos (''co_zX_session_z1'', 0), JString ''c''), (AtEnd, JNull)]"
    by (simp add: list_eval)
  have 1: "\<exists>xs ys zs.
      coListEntries [earlyC, laterD, sameE, lateA]
        = xs @ (AtPos (fst laterD), JString ''d'') # ys @ (AtPos (fst earlyC), JString ''c'') # zs
      \<and> (\<not> tombstoned [earlyC, laterD, sameE, lateA] (fst laterD)
           \<and> \<not> tombstoned [earlyC, laterD, sameE, lateA] (fst earlyC) \<longrightarrow>
           coListView [earlyC, laterD, sameE, lateA]
             = iteration [earlyC, laterD, sameE, lateA] xs @ JString ''d''
                 # iteration [earlyC, laterD, sameE, lateA] ys @ JString ''c''
                 # iteration [earlyC, laterD, sameE, lateA] zs)"
  proof (rule coList_newer_first [where a = "AtPos (''co_zZ_session_z1'', 0)"])
    show "AtPos (''co_zZ_session_z1'', 0) = AtStart \<or> AtPos (''co_zZ_session_z1'', 0) = AtEnd
        \<or> AtPos (''co_zZ_session_z1'', 0) \<in> fst ` set (coListEntries [earlyC, laterD, sameE, lateA])"
      unfolding 0 by simp
  qed (simp_all add: lateA_def earlyC_def sameE_def laterD_def)
  have 2: "coListView [earlyC, laterD, sameE, lateA] = [JString ''a'', JString ''d'', JString ''e'', JString ''c'']"
    by (simp add: list_eval)
  have 3: "coListView [lateA, sameE, laterD, earlyC] = [JString ''a'', JString ''d'', JString ''e'', JString ''c'']"
    by (simp add: list_eval)
  have 4: "coListView [insD, insC, insB, insA] = [JString ''a'', JString ''d'', JString ''c'', JString ''b'']"
    by (simp add: list_eval)
  have 5: "coListView [insA, insB, insC, insD] = [JString ''a'', JString ''d'', JString ''c'', JString ''b'']"
    by (simp add: list_eval)
  from 1 2 3 4 5 show ?thesis by blast
qed

end
